theory Spec2Isabelle
  imports Complex_Main
begin

section \<open>Batch job orchestration: data model\<close>

text \<open>
  The development embeds \<^verbatim>\<open>ai-services/src/api/endpoints/batch_processing.py\<close>.
  The module keeps three module-level containers (\<^verbatim>\<open>BATCH_JOBS\<close>, \<^verbatim>\<open>JOB_QUEUE\<close>,
  \<^verbatim>\<open>PROCESSING_JOBS\<close>) and runs on one asyncio event loop. The embedding passes the
  containers around as an explicit state record and makes every maximal run of code between
  two suspension points of a coroutine one atomic step of a labelled transition system.
\<close>

datatype BatchStatus = PENDING | PROCESSING | COMPLETED | FAILED | CANCELLED

datatype BatchJobType =
  NLP_ANALYSIS | DOCUMENT_CLASSIFICATION | RISK_ASSESSMENT
  | REGULATORY_ANALYSIS | MODEL_TRAINING | BULK_PREDICTION

text \<open>Values of type \<^verbatim>\<open>Any\<close> that arrive in a request body: parsed JSON.\<close>

datatype json =
  JNull | JBool bool | JNum int | JStr string
  | JList "json list" | JDict "(string \<times> json) list"

text \<open>
  A reading of \<^verbatim>\<open>time.time()\<close> and a \<^verbatim>\<open>str(uuid.uuid4())\<close>. Both come from the
  environment; the embedding takes them as inputs of the step that reads them. All the
  clock readings of one atomic step are taken to be the same reading.
\<close>

type_synonym timestamp = nat
type_synonym job_id = string

datatype exn =
  ValueError string | TypeError string | ZeroDivisionError

datatype http_error = HTTPException nat string

text \<open>
  One entry of \<^verbatim>\<open>job.results\<close>: the index, the input and the time; the remaining keys
  of the dictionary are constants of the mock that depend on the job type only.
\<close>

record result_entry =
  r_index :: nat
  r_input :: json
  r_mock :: BatchJobType
  r_processed_at :: timestamp

text \<open>
  One entry of \<^verbatim>\<open>job.errors\<close>: an item-level entry (the NLP processor stores the input,
  the other processors do not) or the job-level entry with \<^verbatim>\<open>"type": "job_failure"\<close>.
\<close>

datatype error_entry =
  ItemError nat "json option" exn timestamp
  | JobFailure exn timestamp

record BatchJobRequest =
  req_job_type :: BatchJobType
  req_name :: string
  req_description :: "string option"
  req_items :: "(string \<times> json) list list"
  req_parameters :: "(string \<times> json) list"
  req_priority :: int
  req_max_workers :: int
  req_timeout_per_item :: int

text \<open>
  \<^verbatim>\<open>progress_percentage\<close> is a Python float; the embedding computes it in exact rational
  arithmetic. The items of the request are not a field of the job: \<^verbatim>\<open>create_batch_job\<close>
  stores their number only.
\<close>

record BatchJob =
  job_id :: job_id
  job_type :: BatchJobType
  name :: string
  description :: "string option"
  status :: BatchStatus
  created_at :: timestamp
  started_at :: "timestamp option"
  completed_at :: "timestamp option"
  total_items :: nat
  processed_items :: nat
  successful_items :: nat
  failed_items :: nat
  progress_percentage :: rat
  results :: "result_entry list"
  errors :: "error_entry list"
  parameters :: "(string \<times> json) list"
  priority :: int
  max_workers :: int

section \<open>The event loop\<close>

text \<open>
  The task that \<^verbatim>\<open>asyncio.create_task(_process_batch_job(job_id))\<close> creates is
  \<open>Scheduled\<close> until its first step runs, \<open>Awaiting\<close> while it is suspended in
  \<^verbatim>\<open>await asyncio.gather(*tasks)\<close> (the flag is the task's pending cancellation request),
  and \<open>Finished\<close> afterwards.
\<close>

datatype task = Scheduled | Awaiting bool | Finished

text \<open>
  A child task runs \<^verbatim>\<open>process_item(item, index)\<close>. It is \<open>Created\<close> until its first step,
  \<open>Waiting\<close> while it is suspended in the semaphore's \<^verbatim>\<open>acquire\<close>, and \<open>Sleeping\<close> while it
  holds the semaphore and is suspended in \<^verbatim>\<open>await asyncio.sleep(0.1)\<close>.
\<close>

datatype phase = Created | Waiting | Sleeping

datatype outcome = GOk | GExn exn | GCancelled

text \<open>
  The future returned by \<^verbatim>\<open>asyncio.gather\<close>: the children that have not finished, the
  future's outcome once it has one, and whether the children have been cancelled.
\<close>

record gather =
  children :: "(nat \<times> json \<times> phase) list"
  outer :: "outcome option"
  killed :: bool

record state =
  BATCH_JOBS :: "job_id \<rightharpoonup> BatchJob"
  JOB_QUEUE :: "job_id list"
  PROCESSING_JOBS :: "job_id list"
  background :: nat
  tasks :: "job_id \<rightharpoonup> task"
  gathers :: "job_id \<rightharpoonup> gather"

text \<open>
  \<open>PROCESSING_JOBS\<close> is the list of the keys of the dictionary, in insertion order; the
  value stored under a key is the task of that job, which \<open>tasks\<close> holds. \<open>background\<close>
  counts the \<^verbatim>\<open>_process_job_queue\<close> calls that \<^verbatim>\<open>background_tasks.add_task\<close> has
  registered and that have not run yet.
\<close>

definition init_state :: state where
  "init_state =
     \<lparr>BATCH_JOBS = Map.empty, JOB_QUEUE = [], PROCESSING_JOBS = [], background = 0,
      tasks = Map.empty, gathers = Map.empty\<rparr>"

section \<open>Item processing\<close>

definition enumerate_list :: "'a list \<Rightarrow> (nat \<times> 'a) list" where
  "enumerate_list xs = zip [0..<length xs] xs"

text \<open>
  What \<^verbatim>\<open>enumerate(v)\<close> iterates over: the elements of a list, the keys of a dictionary,
  the characters of a string; any other value is not iterable.
\<close>

fun iter_json :: "json \<Rightarrow> exn + json list" where
  "iter_json (JList xs) = Inr xs"
| "iter_json (JDict kvs) = Inr (map (\<lambda>kv. JStr (fst kv)) kvs)"
| "iter_json (JStr s) = Inr (map (\<lambda>c. JStr [c]) s)"
| "iter_json v = Inl (TypeError ''object is not iterable'')"

text \<open>\<^verbatim>\<open>job.parameters.get("items", [])\<close>\<close>

definition get_items :: "(string \<times> json) list \<Rightarrow> json" where
  "get_items ps = (case map_of ps ''items'' of Some v \<Rightarrow> v | None \<Rightarrow> JList [])"

text \<open>The body of the \<^verbatim>\<open>try\<close> block builds a dictionary of constants; it does not raise.\<close>

definition mock_result :: "BatchJobType \<Rightarrow> nat \<Rightarrow> json \<Rightarrow> timestamp \<Rightarrow> exn + result_entry" where
  "mock_result ty i item now =
     Inr \<lparr>r_index = i, r_input = item, r_mock = ty, r_processed_at = now\<rparr>"

text \<open>The \<^verbatim>\<open>try\<close>/\<^verbatim>\<open>except Exception\<close> pair of one item.\<close>

definition try_item :: "BatchJobType \<Rightarrow> timestamp \<Rightarrow> BatchJob \<Rightarrow> nat \<times> json \<Rightarrow> BatchJob" where
  "try_item ty now job x =
     (case mock_result ty (fst x) (snd x) now of
        Inr r \<Rightarrow> job\<lparr>results := results job @ [r],
                      successful_items := successful_items job + 1\<rparr>
      | Inl e \<Rightarrow> job\<lparr>errors := errors job @
                        [ItemError (fst x) (if ty = NLP_ANALYSIS then Some (snd x) else None) e now],
                      failed_items := failed_items job + 1\<rparr>)"

text \<open>
  \<^verbatim>\<open>job.processed_items += 1\<close> followed by
  \<^verbatim>\<open>job.progress_percentage = (job.processed_items / job.total_items) * 100\<close>. The division
  raises when \<^verbatim>\<open>total_items\<close> is zero; the counter has been incremented by then.
\<close>

definition count_progress :: "BatchJob \<Rightarrow> BatchJob \<times> exn option" where
  "count_progress job =
     (let j = job\<lparr>processed_items := processed_items job + 1\<rparr>
      in if total_items j = 0 then (j, Some ZeroDivisionError)
         else (j\<lparr>progress_percentage :=
                   (of_nat (processed_items j) / of_nat (total_items j)) * 100\<rparr>, None))"

definition item_body :: "BatchJobType \<Rightarrow> timestamp \<Rightarrow> BatchJob \<Rightarrow> nat \<times> json \<Rightarrow> BatchJob \<times> exn option" where
  "item_body ty now job x = count_progress (try_item ty now job x)"

text \<open>The \<^verbatim>\<open>for i, item in enumerate(...)\<close> loop of the four sequential processors.\<close>

fun batch_loop :: "BatchJobType \<Rightarrow> timestamp \<Rightarrow> (nat \<times> json) list \<Rightarrow> BatchJob \<Rightarrow> BatchJob \<times> exn option" where
  "batch_loop ty now [] job = (job, None)"
| "batch_loop ty now (x # xs) job =
     (case item_body ty now job x of
        (job', Some e) \<Rightarrow> (job', Some e)
      | (job', None) \<Rightarrow> batch_loop ty now xs job')"

definition sequential_batch :: "BatchJobType \<Rightarrow> timestamp \<Rightarrow> BatchJob \<Rightarrow> BatchJob \<times> exn option" where
  "sequential_batch ty now job =
     (case iter_json (get_items (parameters job)) of
        Inl e \<Rightarrow> (job, Some e)
      | Inr xs \<Rightarrow> batch_loop ty now (enumerate_list xs) job)"

definition process_document_batch :: "timestamp \<Rightarrow> BatchJob \<Rightarrow> BatchJob \<times> exn option" where
  "process_document_batch = sequential_batch DOCUMENT_CLASSIFICATION"

definition process_risk_batch :: "timestamp \<Rightarrow> BatchJob \<Rightarrow> BatchJob \<times> exn option" where
  "process_risk_batch = sequential_batch RISK_ASSESSMENT"

definition process_regulatory_batch :: "timestamp \<Rightarrow> BatchJob \<Rightarrow> BatchJob \<times> exn option" where
  "process_regulatory_batch = sequential_batch REGULATORY_ANALYSIS"

definition process_prediction_batch :: "timestamp \<Rightarrow> BatchJob \<Rightarrow> BatchJob \<times> exn option" where
  "process_prediction_batch = sequential_batch BULK_PREDICTION"

text \<open>
  \<^verbatim>\<open>_process_nlp_batch\<close> up to its \<^verbatim>\<open>await\<close>: \<^verbatim>\<open>asyncio.Semaphore(job.max_workers)\<close>
  raises on a negative value, then one coroutine is created for each enumerated entry.
\<close>

definition nlp_spawn :: "BatchJob \<Rightarrow> exn + (nat \<times> json \<times> phase) list" where
  "nlp_spawn job =
     (if max_workers job < 0 then Inl (ValueError ''Semaphore initial value must be >= 0'')
      else case iter_json (get_items (parameters job)) of
             Inl e \<Rightarrow> Inl e
           | Inr xs \<Rightarrow> Inr (map (\<lambda>x. (fst x, snd x, Created)) (enumerate_list xs)))"

text \<open>
  The first step of a child: \<^verbatim>\<open>async with semaphore\<close>. The semaphore is free when fewer
  than \<^verbatim>\<open>max_workers\<close> children hold it and no child is queued for it; the child then goes
  on to \<^verbatim>\<open>asyncio.sleep\<close>, otherwise it queues.
\<close>

definition holders :: "(nat \<times> json \<times> phase) list \<Rightarrow> nat" where
  "holders cs = length (filter (\<lambda>c. snd (snd c) = Sleeping) cs)"

definition acquire :: "BatchJob \<Rightarrow> (nat \<times> json \<times> phase) list \<Rightarrow> phase" where
  "acquire job cs =
     (if int (holders cs) < max_workers job \<and> \<not> list_ex (\<lambda>c. snd (snd c) = Waiting) cs
      then Sleeping else Waiting)"

text \<open>
  Leaving the \<^verbatim>\<open>async with\<close> block releases the semaphore, which hands it to the child that
  has queued longest. Children take their first steps in index order, so that child is the
  first \<open>Waiting\<close> one of the list.
\<close>

fun wake_next :: "(nat \<times> json \<times> phase) list \<Rightarrow> (nat \<times> json \<times> phase) list" where
  "wake_next [] = []"
| "wake_next ((i, item, ph) # cs) =
     (if ph = Waiting then (i, item, Sleeping) # cs else (i, item, ph) # wake_next cs)"

text \<open>
  The done-callback of \<^verbatim>\<open>asyncio.gather\<close>: the first child that ends with an exception or
  cancelled settles the outer future; otherwise the last child to end settles it.
\<close>

definition settle :: "gather \<Rightarrow> outcome option \<Rightarrow> (nat \<times> json \<times> phase) list \<Rightarrow> outcome option" where
  "settle g ended rest =
     (case outer g of
        Some oc \<Rightarrow> Some oc
      | None \<Rightarrow>
          (case ended of
             Some oc \<Rightarrow> Some oc
           | None \<Rightarrow> if rest = [] then Some (if killed g then GCancelled else GOk) else None))"

definition put_job :: "job_id \<Rightarrow> BatchJob \<Rightarrow> state \<Rightarrow> state" where
  "put_job jid job s = s\<lparr>BATCH_JOBS := (BATCH_JOBS s)(jid \<mapsto> job)\<rparr>"

definition put_gather :: "job_id \<Rightarrow> gather \<Rightarrow> state \<Rightarrow> state" where
  "put_gather jid g s = s\<lparr>gathers := (gathers s)(jid \<mapsto> g)\<rparr>"

text \<open>
  One step of the child \<open>idx\<close> of job \<open>jid\<close>. A child that was not cancelled starts, or wakes
  from its sleep and runs the rest of \<^verbatim>\<open>process_item\<close>. A cancelled child is resumed with
  \<^verbatim>\<open>CancelledError\<close>, which \<^verbatim>\<open>except Exception\<close> does not catch: if it was sleeping, only
  its \<^verbatim>\<open>finally\<close> block runs; otherwise nothing of its body runs.
\<close>

definition item_step :: "job_id \<Rightarrow> nat \<Rightarrow> timestamp \<Rightarrow> state \<Rightarrow> state option" where
  "item_step jid idx now s =
     (case (gathers s jid, BATCH_JOBS s jid) of
        (Some g, Some job) \<Rightarrow>
          (case find (\<lambda>c. fst c = idx) (children g) of
             None \<Rightarrow> None
           | Some (i, item, ph) \<Rightarrow>
               (let rest = filter (\<lambda>c. fst c \<noteq> idx) (children g) in
                if killed g then
                  (if ph = Sleeping then
                     (let r = count_progress job;
                          ended = (case snd r of Some e \<Rightarrow> GExn e | None \<Rightarrow> GCancelled)
                      in Some (put_gather jid (g\<lparr>children := rest, outer := settle g (Some ended) rest\<rparr>)
                                (put_job jid (fst r) s)))
                   else Some (put_gather jid
                                (g\<lparr>children := rest, outer := settle g (Some GCancelled) rest\<rparr>) s))
                else
                  (case ph of
                     Created \<Rightarrow>
                       Some (put_gather jid
                         (g\<lparr>children := map (\<lambda>c. if fst c = idx
                                                   then (fst c, fst (snd c), acquire job (children g))
                                                   else c) (children g)\<rparr>) s)
                   | Waiting \<Rightarrow> None
                   | Sleeping \<Rightarrow>
                       (let r = item_body NLP_ANALYSIS now job (i, item);
                            rest' = wake_next rest
                        in Some (put_gather jid
                                  (g\<lparr>children := rest',
                                     outer := settle g (map_option GExn (snd r)) rest'\<rparr>)
                                  (put_job jid (fst r) s))))))
      | _ \<Rightarrow> None)"

section \<open>The job coroutine\<close>

definition job_completed :: "timestamp \<Rightarrow> BatchJob \<Rightarrow> BatchJob" where
  "job_completed now job =
     job\<lparr>status := COMPLETED, completed_at := Some now, progress_percentage := 100\<rparr>"

definition job_failed :: "timestamp \<Rightarrow> exn \<Rightarrow> BatchJob \<Rightarrow> BatchJob" where
  "job_failed now e job =
     job\<lparr>status := FAILED, completed_at := Some now,
         errors := errors job @ [JobFailure e now]\<rparr>"

definition conclude :: "timestamp \<Rightarrow> BatchJob \<times> exn option \<Rightarrow> BatchJob" where
  "conclude now r =
     (case snd r of None \<Rightarrow> job_completed now (fst r) | Some e \<Rightarrow> job_failed now e (fst r))"

text \<open>
  The \<^verbatim>\<open>finally\<close> block of \<^verbatim>\<open>_process_batch_job\<close>, after which the task has ended.
\<close>

definition finish_task :: "job_id \<Rightarrow> state \<Rightarrow> state" where
  "finish_task jid s =
     s\<lparr>PROCESSING_JOBS := removeAll jid (PROCESSING_JOBS s),
       tasks := (tasks s)(jid \<mapsto> Finished)\<rparr>"

text \<open>
  \<^verbatim>\<open>_process_batch_job\<close> from its start to its first suspension. The four sequential
  processors contain no \<^verbatim>\<open>await\<close>, and \<^verbatim>\<open>asyncio.gather()\<close> of no coroutine is a future
  that is done already: in both cases the coroutine runs to its end in this one step. A
  missing record makes \<^verbatim>\<open>BATCH_JOBS[job_id]\<close> raise, and the handler then fails on the
  unbound \<^verbatim>\<open>job\<close>; only the \<^verbatim>\<open>finally\<close> block takes effect.
\<close>

definition process_batch_job_start :: "job_id \<Rightarrow> timestamp \<Rightarrow> state \<Rightarrow> state" where
  "process_batch_job_start jid now s =
     (case BATCH_JOBS s jid of
        None \<Rightarrow> finish_task jid s
      | Some job0 \<Rightarrow>
          (let job = job0\<lparr>status := PROCESSING, started_at := Some now\<rparr> in
           case job_type job of
             NLP_ANALYSIS \<Rightarrow>
               (case nlp_spawn job of
                  Inl e \<Rightarrow> finish_task jid (put_job jid (job_failed now e job) s)
                | Inr cs \<Rightarrow>
                    if cs = [] then finish_task jid (put_job jid (job_completed now job) s)
                    else (put_gather jid \<lparr>children = cs, outer = None, killed = False\<rparr>
                           (put_job jid job s))\<lparr>tasks := (tasks s)(jid \<mapsto> Awaiting False)\<rparr>)
           | DOCUMENT_CLASSIFICATION \<Rightarrow>
               finish_task jid (put_job jid (conclude now (process_document_batch now job)) s)
           | RISK_ASSESSMENT \<Rightarrow>
               finish_task jid (put_job jid (conclude now (process_risk_batch now job)) s)
           | REGULATORY_ANALYSIS \<Rightarrow>
               finish_task jid (put_job jid (conclude now (process_regulatory_batch now job)) s)
           | BULK_PREDICTION \<Rightarrow>
               finish_task jid (put_job jid (conclude now (process_prediction_batch now job)) s)
           | MODEL_TRAINING \<Rightarrow>
               finish_task jid
                 (put_job jid (job_failed now (ValueError ''Unknown job type: model_training'') job) s)))"

text \<open>
  \<^verbatim>\<open>_process_batch_job\<close> from the point where \<^verbatim>\<open>await asyncio.gather(*tasks)\<close> returns or
  raises. \<^verbatim>\<open>CancelledError\<close> is not an \<^verbatim>\<open>Exception\<close>: it passes the handler and only the
  \<^verbatim>\<open>finally\<close> block runs.
\<close>

definition process_batch_job_resume :: "job_id \<Rightarrow> timestamp \<Rightarrow> outcome \<Rightarrow> state \<Rightarrow> state" where
  "process_batch_job_resume jid now oc s =
     (case BATCH_JOBS s jid of
        None \<Rightarrow> finish_task jid s
      | Some job \<Rightarrow>
          (case oc of
             GOk \<Rightarrow> finish_task jid (put_job jid (job_completed now job) s)
           | GExn e \<Rightarrow> finish_task jid (put_job jid (job_failed now e job) s)
           | GCancelled \<Rightarrow> finish_task jid s))"

text \<open>
  One step of the task of job \<open>jid\<close>. A suspended task can run again once the future it
  awaits has an outcome; a task with a pending cancellation request is resumed with
  \<^verbatim>\<open>CancelledError\<close> whatever that outcome is.
\<close>

definition job_step :: "job_id \<Rightarrow> timestamp \<Rightarrow> state \<Rightarrow> state option" where
  "job_step jid now s =
     (case tasks s jid of
        Some Scheduled \<Rightarrow> Some (process_batch_job_start jid now s)
      | Some (Awaiting must_cancel) \<Rightarrow>
          (case gathers s jid of
             None \<Rightarrow> None
           | Some g \<Rightarrow>
               (case outer g of
                  None \<Rightarrow> None
                | Some oc \<Rightarrow>
                    Some (process_batch_job_resume jid now
                            (if must_cancel then GCancelled else oc) s)))
      | _ \<Rightarrow> None)"

section \<open>Admission\<close>

definition admissible :: "state \<Rightarrow> job_id \<Rightarrow> bool" where
  "admissible s jid =
     (case BATCH_JOBS s jid of Some job \<Rightarrow> status job = PENDING | None \<Rightarrow> False)"

text \<open>
  \<^verbatim>\<open>task = asyncio.create_task(...)\<close> and \<^verbatim>\<open>PROCESSING_JOBS[job_id] = task\<close>: the coroutine
  does not run yet; writing to a key that is present keeps the dictionary's length.
\<close>

definition create_task :: "job_id \<Rightarrow> state \<Rightarrow> state" where
  "create_task jid s =
     s\<lparr>tasks := (tasks s)(jid \<mapsto> Scheduled),
       PROCESSING_JOBS :=
         (if jid \<in> set (PROCESSING_JOBS s) then PROCESSING_JOBS s
          else PROCESSING_JOBS s @ [jid])\<rparr>"

function process_job_queue :: "state \<Rightarrow> state" where
  "process_job_queue s =
     (case JOB_QUEUE s of
        [] \<Rightarrow> s
      | jid # rest \<Rightarrow>
          if length (PROCESSING_JOBS s) < 3 then
            process_job_queue
              (if admissible (s\<lparr>JOB_QUEUE := rest\<rparr>) jid
               then create_task jid (s\<lparr>JOB_QUEUE := rest\<rparr>)
               else s\<lparr>JOB_QUEUE := rest\<rparr>)
          else s)"
  by pat_completeness auto
termination
  by (relation "measure (\<lambda>s. length (JOB_QUEUE s))") (auto simp: create_task_def)

declare process_job_queue.simps [simp del]

section \<open>The endpoints\<close>

definition new_job :: "job_id \<Rightarrow> timestamp \<Rightarrow> BatchJobRequest \<Rightarrow> BatchJob" where
  "new_job jid now req =
     \<lparr>job_id = jid, job_type = req_job_type req, name = req_name req,
      description = req_description req, status = PENDING, created_at = now,
      started_at = None, completed_at = None, total_items = length (req_items req),
      processed_items = 0, successful_items = 0, failed_items = 0,
      progress_percentage = 0, results = [], errors = [],
      parameters = req_parameters req, priority = req_priority req,
      max_workers = req_max_workers req\<rparr>"

text \<open>
  \<^verbatim>\<open>JOB_QUEUE.sort(key=lambda jid: BATCH_JOBS[jid].priority, reverse=True)\<close> is a stable
  sort in descending order of the key, that is a stable ascending sort on the negated key.
\<close>

definition sort_priority :: "(job_id \<rightharpoonup> BatchJob) \<Rightarrow> job_id \<Rightarrow> int" where
  "sort_priority jobs jid = (case jobs jid of Some job \<Rightarrow> - priority job | None \<Rightarrow> 0)"

record create_response =
  resp_job_id :: job_id
  resp_status :: BatchStatus
  resp_total_items :: nat
  resp_queue_position :: nat

text \<open>
  \<^verbatim>\<open>create_batch_job\<close>. The key function raises on an id of the queue that has no record;
  the handler turns that into status 500, after the record was stored and the id appended.
\<close>

definition create_batch_job ::
    "job_id \<Rightarrow> timestamp \<Rightarrow> BatchJobRequest \<Rightarrow> state \<Rightarrow> (http_error + create_response) \<times> state" where
  "create_batch_job jid now req s =
     (let job = new_job jid now req;
          jobs = (BATCH_JOBS s)(jid \<mapsto> job);
          q = JOB_QUEUE s @ [jid]
      in if list_all (\<lambda>j. jobs j \<noteq> None) q then
           (let q' = sort_key (sort_priority jobs) q
            in (Inr \<lparr>resp_job_id = jid, resp_status = status job,
                     resp_total_items = total_items job,
                     resp_queue_position = length (takeWhile (\<lambda>j. j \<noteq> jid) q') + 1\<rparr>,
                s\<lparr>BATCH_JOBS := jobs, JOB_QUEUE := q', background := background s + 1\<rparr>))
         else (Inl (HTTPException 500 ''Failed to create batch job''),
               s\<lparr>BATCH_JOBS := jobs, JOB_QUEUE := q\<rparr>))"

text \<open>
  \<^verbatim>\<open>Task.cancel()\<close> on the task of a job. A task suspended in \<^verbatim>\<open>gather\<close> passes the
  request on to the outer future, which cancels every child that has not ended; when no
  child is left to cancel the request stays pending on the task itself. A task that has
  not started never runs its body.
\<close>

definition cancel_task :: "job_id \<Rightarrow> state \<Rightarrow> state" where
  "cancel_task jid s =
     (case tasks s jid of
        Some (Awaiting must_cancel) \<Rightarrow>
          (case gathers s jid of
             Some g \<Rightarrow>
               if outer g = None \<and> children g \<noteq> [] then put_gather jid (g\<lparr>killed := True\<rparr>) s
               else s\<lparr>tasks := (tasks s)(jid \<mapsto> Awaiting True)\<rparr>
           | None \<Rightarrow> s\<lparr>tasks := (tasks s)(jid \<mapsto> Awaiting True)\<rparr>)
      | Some Scheduled \<Rightarrow> s\<lparr>tasks := (tasks s)(jid \<mapsto> Finished)\<rparr>
      | _ \<Rightarrow> s)"

definition cancel_batch_job :: "job_id \<Rightarrow> timestamp \<Rightarrow> state \<Rightarrow> http_error + state" where
  "cancel_batch_job jid now s =
     (case BATCH_JOBS s jid of
        None \<Rightarrow> Inl (HTTPException 404 ''Job not found'')
      | Some job \<Rightarrow>
          if status job = COMPLETED then Inl (HTTPException 400 ''Cannot cancel completed job'')
          else
            (let s1 = (if status job = PROCESSING \<and> jid \<in> set (PROCESSING_JOBS s)
                       then (cancel_task jid s)
                              \<lparr>PROCESSING_JOBS := removeAll jid (PROCESSING_JOBS s)\<rparr>
                       else s);
                 s2 = s1\<lparr>JOB_QUEUE := remove1 jid (JOB_QUEUE s1)\<rparr>
             in Inr (put_job jid (job\<lparr>status := CANCELLED, completed_at := Some now\<rparr>) s2)))"

section \<open>The transition system\<close>

text \<open>
  An event is one atomic step of the event loop: the body of an endpoint (none of the two
  contains an \<^verbatim>\<open>await\<close>), the registered background call of \<^verbatim>\<open>_process_job_queue\<close>, a step
  of a job's task, or a step of a child. \<open>step\<close> is \<open>None\<close> when the event cannot happen in the
  state. \<^verbatim>\<open>uuid.uuid4()\<close> returns an id that no record has. An endpoint that answers with an
  error leaves the state as it was.
\<close>

datatype event =
  Create job_id timestamp BatchJobRequest
  | Cancel job_id timestamp
  | QueuePass
  | JobStep job_id timestamp
  | ItemStep job_id nat timestamp

fun step :: "event \<Rightarrow> state \<Rightarrow> state option" where
  "step (Create jid now req) s =
     (if BATCH_JOBS s jid = None then Some (snd (create_batch_job jid now req s)) else None)"
| "step (Cancel jid now) s =
     (case cancel_batch_job jid now s of Inl err \<Rightarrow> Some s | Inr s' \<Rightarrow> Some s')"
| "step QueuePass s =
     (if background s = 0 then None
      else Some (process_job_queue (s\<lparr>background := background s - 1\<rparr>)))"
| "step (JobStep jid now) s = job_step jid now s"
| "step (ItemStep jid idx now) s = item_step jid idx now s"

fun run :: "event list \<Rightarrow> state \<Rightarrow> state option" where
  "run [] s = Some s"
| "run (e # es) s = (case step e s of None \<Rightarrow> None | Some s' \<Rightarrow> run es s')"

definition status_of :: "state \<Rightarrow> job_id \<Rightarrow> BatchStatus option" where
  "status_of s jid = map_option status (BATCH_JOBS s jid)"

section \<open>Invariants of the transition system\<close>

text \<open>
  The conditions below hold in every state that a run reaches from \<open>init_state\<close>.
  A queued id has a pending record and no task; a task that has not started is registered
  in \<open>PROCESSING_JOBS\<close>; a pending record is queued or has such a task; a record in
  status processing is registered and its task is suspended in a \<^verbatim>\<open>gather\<close> that was
  not cancelled; and \<open>PROCESSING_JOBS\<close> never holds more than three keys.
\<close>

definition queue_ok :: "state \<Rightarrow> bool" where
  "queue_ok s = (distinct (JOB_QUEUE s) \<and>
     (\<forall>jid \<in> set (JOB_QUEUE s). status_of s jid = Some PENDING \<and> tasks s jid = None))"

definition tasks_ok :: "state \<Rightarrow> bool" where
  "tasks_ok s = (dom (tasks s) \<subseteq> dom (BATCH_JOBS s) \<and> set (PROCESSING_JOBS s) \<subseteq> dom (tasks s) \<and>
     (\<forall>jid. tasks s jid = Some Scheduled \<longrightarrow>
        jid \<in> set (PROCESSING_JOBS s) \<and> status_of s jid \<noteq> Some PROCESSING))"

definition pending_ok :: "state \<Rightarrow> bool" where
  "pending_ok s = (\<forall>jid. status_of s jid = Some PENDING \<longrightarrow>
      jid \<in> set (JOB_QUEUE s) \<or> tasks s jid = Some Scheduled)"

definition processing_ok :: "state \<Rightarrow> bool" where
  "processing_ok s = (\<forall>jid. status_of s jid = Some PROCESSING \<longrightarrow>
      jid \<in> set (PROCESSING_JOBS s) \<and> tasks s jid = Some (Awaiting False) \<and>
      (\<exists>g. gathers s jid = Some g \<and> \<not> killed g \<and> outer g \<noteq> Some GCancelled))"

definition slots_ok :: "state \<Rightarrow> bool" where
  "slots_ok s = (length (PROCESSING_JOBS s) \<le> 3)"

definition invariant :: "state \<Rightarrow> bool" where
  "invariant s = (queue_ok s \<and> tasks_ok s \<and> pending_ok s \<and> processing_ok s \<and> slots_ok s)"

text \<open>
  A job that has a record, no task, and a status other than pending and processing.
\<close>

definition retired :: "job_id \<Rightarrow> state \<Rightarrow> bool" where
  "retired jid s = (BATCH_JOBS s jid \<noteq> None \<and> tasks s jid = None \<and>
     status_of s jid \<noteq> Some PENDING \<and> status_of s jid \<noteq> Some PROCESSING)"

text \<open>The fields of a record that the order of the queue depends on.\<close>

definition same_key :: "BatchJob \<Rightarrow> BatchJob \<Rightarrow> bool" where
  "same_key job job' = (priority job' = priority job \<and> created_at job' = created_at job)"

definition job_key :: "state \<Rightarrow> job_id \<Rightarrow> (int \<times> timestamp) option" where
  "job_key s jid = map_option (\<lambda>job. (priority job, created_at job)) (BATCH_JOBS s jid)"






section \<open>The order of submission and the order of first steps\<close>

text \<open>
  The ids that a run submits, in the order of their submission, and the place of an id in
  such a list. \<open>rank_before\<close> is the order \<open>(priority descending, order of submission)\<close> on
  the ids of recorded jobs.
\<close>

fun submitted :: "event list \<Rightarrow> job_id list" where
  "submitted [] = []"
| "submitted (Create jid now req # es) = jid # submitted es"
| "submitted (e # es) = submitted es"








text \<open>
  A job that was cancelled before an admission pass created a task for it.
\<close>

definition withdrawn :: "state \<Rightarrow> job_id \<Rightarrow> bool" where
  "withdrawn s jid = (tasks s jid = None \<and> status_of s jid = Some CANCELLED)"

text \<open>
  The event loop keeps the callbacks that are ready in a queue and runs them in the order
  in which they were added: of the tasks that were created and have not yet run, the one
  that was created first takes its first step first. \<open>PROCESSING_JOBS\<close> holds the keys in
  the order of their insertion, which is the order in which the tasks were created. The
  transition system itself lets the tasks start in any order; \<open>fifo_run\<close> singles out the
  runs in which every first step is the one of the task created first. \<open>waiting_line\<close> is
  the order in which the jobs that have not started are to start: the tasks that were
  created, then the queue.
\<close>

definition next_start :: "state \<Rightarrow> job_id option" where
  "next_start s = find (\<lambda>j. tasks s j = Some Scheduled) (PROCESSING_JOBS s)"

fun fifo_step :: "event \<Rightarrow> state \<Rightarrow> bool" where
  "fifo_step (JobStep jid now) s = (tasks s jid \<noteq> Some Scheduled \<or> next_start s = Some jid)"
| "fifo_step e s = True"

fun fifo_run :: "event list \<Rightarrow> state \<Rightarrow> bool" where
  "fifo_run [] s = True"
| "fifo_run (e # es) s =
     (fifo_step e s \<and> (case step e s of None \<Rightarrow> True | Some s' \<Rightarrow> fifo_run es s'))"



section \<open>Sample requests and runs\<close>

text \<open>
  The state and the record of a job after a run from the initial state. The sample
  requests follow the requests of the repository's tests and demonstration script: the
  items are given under \<^verbatim>\<open>items\<close>, and \<^verbatim>\<open>parameters\<close> holds options of the analysis.
  \<open>listed_request\<close> also lists two entries under the key \<^verbatim>\<open>items\<close> of its parameters.
\<close>

definition state_after :: "event list \<Rightarrow> state" where
  "state_after es = (case run es init_state of Some s \<Rightarrow> s | None \<Rightarrow> init_state)"

definition job_after :: "event list \<Rightarrow> job_id \<Rightarrow> BatchJob option" where
  "job_after es jid = BATCH_JOBS (state_after es) jid"

definition sample_request ::
    "BatchJobType \<Rightarrow> (string \<times> json) list list \<Rightarrow> (string \<times> json) list \<Rightarrow> int \<Rightarrow> BatchJobRequest" where
  "sample_request ty its ps p =
     \<lparr>req_job_type = ty, req_name = ''job'', req_description = None, req_items = its,
      req_parameters = ps, req_priority = p, req_max_workers = 5, req_timeout_per_item = 60\<rparr>"

definition five_texts :: "(string \<times> json) list list" where
  "five_texts = [[(''text'', JStr ''a'')], [(''text'', JStr ''b'')], [(''text'', JStr ''c'')],
                 [(''text'', JStr ''d'')], [(''text'', JStr ''e'')]]"

definition demo_request :: BatchJobRequest where
  "demo_request =
     sample_request NLP_ANALYSIS five_texts [(''analysis_type'', JStr ''comprehensive'')] 7"

definition demo_run :: "event list" where
  "demo_run = [Create ''j'' 0 demo_request, QueuePass, JobStep ''j'' 1]"

definition test_request :: BatchJobRequest where
  "test_request = sample_request DOCUMENT_CLASSIFICATION [[(''text'', JStr ''test'')]] [] 5"

definition listed_request :: "BatchJobType \<Rightarrow> int \<Rightarrow> BatchJobRequest" where
  "listed_request ty p =
     sample_request ty [[(''text'', JStr ''a'')]] [(''items'', JList [JStr ''a'', JStr ''b''])] p"

definition test_run :: "event list" where
  "test_run = [Create ''j'' 0 test_request, QueuePass, JobStep ''j'' 1]"

definition listed_run :: "event list" where
  "listed_run = [Create ''j'' 0 (listed_request DOCUMENT_CLASSIFICATION 5), QueuePass, JobStep ''j'' 1]"

definition race_run :: "event list" where
  "race_run = [Create ''j'' 0 (listed_request NLP_ANALYSIS 5), QueuePass, Cancel ''j'' 1]"

definition cancel_run :: "event list" where
  "cancel_run = [Create ''j'' 0 test_request, Cancel ''j'' 1]"

text \<open>
  \<open>busy_run\<close>: four NLP jobs are submitted one after the other; each admission pass and
  each task's first step follows its submission at once. Three jobs are then suspended in
  status processing and the fourth stays queued. \<open>draining_run\<close> lets the two children of
  job \<^verbatim>\<open>a\<close> start and end, and \<open>stuck_run\<close> resumes the task of \<^verbatim>\<open>a\<close>, which completes
  the job. In \<open>priority_run\<close> the jobs \<^verbatim>\<open>A\<close> (priority 1) and \<^verbatim>\<open>B\<close> (priority 9) are
  submitted while the three jobs are processing, before job \<^verbatim>\<open>a\<close> completes.
\<close>

definition busy_run :: "event list" where
  "busy_run =
     [Create ''a'' 0 (listed_request NLP_ANALYSIS 5), QueuePass, JobStep ''a'' 1,
      Create ''b'' 2 (listed_request NLP_ANALYSIS 5), QueuePass, JobStep ''b'' 3,
      Create ''c'' 4 (listed_request NLP_ANALYSIS 5), QueuePass, JobStep ''c'' 5,
      Create ''d'' 6 (listed_request NLP_ANALYSIS 5), QueuePass]"

definition draining_run :: "event list" where
  "draining_run = busy_run @
     [ItemStep ''a'' 0 7, ItemStep ''a'' 1 7, ItemStep ''a'' 0 8, ItemStep ''a'' 1 8]"

definition stuck_run :: "event list" where
  "stuck_run = draining_run @ [JobStep ''a'' 9]"

definition priority_run :: "event list" where
  "priority_run = busy_run @
     [Create ''A'' 7 (sample_request DOCUMENT_CLASSIFICATION [] [] 1), QueuePass,
      Create ''B'' 8 (sample_request DOCUMENT_CLASSIFICATION [] [] 9), QueuePass,
      ItemStep ''a'' 0 9, ItemStep ''a'' 1 9, ItemStep ''a'' 0 10, ItemStep ''a'' 1 10,
      JobStep ''a'' 11]"

definition empty_nlp_request :: BatchJobRequest where
  "empty_nlp_request = sample_request NLP_ANALYSIS [] [(''analysis_type'', JStr ''sentiment'')] 5"

definition training_request :: BatchJobRequest where
  "training_request = sample_request MODEL_TRAINING five_texts [] 5"

definition training_run :: "event list" where
  "training_run = [Create ''j'' 0 (sample_request MODEL_TRAINING [] [] 5), QueuePass, JobStep ''j'' 1]"

text \<open>
  \<open>backstep_run\<close>: two submissions of the same priority between which the clock is set
  back. \<open>later_run\<close> continues \<open>priority_run\<close>: job \<^verbatim>\<open>d\<close> is cancelled in the queue, job
  \<^verbatim>\<open>b\<close> is cancelled while it is processing, a further submission registers a pass, the
  pass admits \<^verbatim>\<open>B\<close> and \<^verbatim>\<open>A\<close>, and their tasks take their first steps in that order.
  In \<open>unordered_run\<close> one pass admits two jobs and the task created second takes its
  first step first. \<open>quiet_events\<close> continues \<open>stuck_run\<close> with a step of an item and a
  cancellation.
\<close>

definition backstep_run :: "event list" where
  "backstep_run = [Create ''a'' 5 test_request, Create ''b'' 3 test_request]"

definition later_run :: "event list" where
  "later_run =
     [Cancel ''d'' 12, Cancel ''b'' 12,
      Create ''e'' 12 (sample_request DOCUMENT_CLASSIFICATION [] [] 0), QueuePass,
      JobStep ''B'' 13, JobStep ''A'' 14]"

definition unordered_run :: "event list" where
  "unordered_run =
     [Create ''A'' 0 (listed_request NLP_ANALYSIS 1), Create ''B'' 1 (listed_request NLP_ANALYSIS 9),
      QueuePass, JobStep ''A'' 2]"

definition quiet_events :: "event list" where
  "quiet_events = [ItemStep ''b'' 0 10, Cancel ''c'' 11]"

section \<open>Evaluation\<close>

lemmas eval_defs = init_state_def create_batch_job_def new_job_def sort_priority_def
  process_job_queue.simps admissible_def create_task_def job_step_def
  process_batch_job_start_def process_batch_job_resume_def process_document_batch_def
  process_risk_batch_def process_regulatory_batch_def process_prediction_batch_def
  sequential_batch_def get_items_def enumerate_list_def conclude_def job_completed_def
  job_failed_def finish_task_def put_job_def put_gather_def nlp_spawn_def item_step_def
  cancel_batch_job_def cancel_task_def count_progress_def item_body_def try_item_def
  mock_result_def settle_def acquire_def holders_def Let_def state_after_def job_after_def
  status_of_def sample_request_def five_texts_def demo_request_def demo_run_def
  test_request_def listed_request_def test_run_def listed_run_def race_run_def
  cancel_run_def busy_run_def draining_run_def stuck_run_def priority_run_def
  empty_nlp_request_def training_request_def training_run_def backstep_run_def
  later_run_def unordered_run_def quiet_events_def

lemma run_append:
  "run (es @ es') s = (case run es s of None \<Rightarrow> None | Some s1 \<Rightarrow> run es' s1)"
  by (induction es arbitrary: s) (auto split: option.splits)

lemma run_some_state_after: "run es init_state \<noteq> None \<Longrightarrow> run es init_state = Some (state_after es)"
  by (auto simp: state_after_def)

lemma step_state_after:
  assumes "run (es @ [e]) init_state \<noteq> None"
  shows "run es init_state = Some (state_after es) \<and>
         step e (state_after es) = Some (state_after (es @ [e]))"
  using assms by (auto simp: run_append state_after_def split: option.splits)

section \<open>What one step changes\<close>

text \<open>Item processing changes neither the status nor the priority nor the creation time.\<close>

lemma count_progress_keeps:
  "status (fst (count_progress job)) = status job"
  "priority (fst (count_progress job)) = priority job"
  "created_at (fst (count_progress job)) = created_at job"
  by (simp_all add: count_progress_def Let_def)

lemma try_item_keeps:
  "status (try_item ty now job x) = status job"
  "priority (try_item ty now job x) = priority job"
  "created_at (try_item ty now job x) = created_at job"
  by (simp_all add: try_item_def mock_result_def)

lemma item_body_keeps:
  "status (fst (item_body ty now job x)) = status job"
  "priority (fst (item_body ty now job x)) = priority job"
  "created_at (fst (item_body ty now job x)) = created_at job"
  by (simp_all add: item_body_def count_progress_keeps try_item_keeps)

lemma batch_loop_keeps:
  "status (fst (batch_loop ty now xs job)) = status job \<and>
   priority (fst (batch_loop ty now xs job)) = priority job \<and>
   created_at (fst (batch_loop ty now xs job)) = created_at job"
proof (induction xs arbitrary: job)
  case Nil
  show ?case by simp
next
  case (Cons x xs)
  obtain j e where r: "item_body ty now job x = (j, e)" by (cases "item_body ty now job x")
  have k: "status j = status job" "priority j = priority job" "created_at j = created_at job"
    using item_body_keeps [of ty now job x] by (simp_all add: r)
  show ?case
  proof (cases e)
    case None
    then show ?thesis using Cons.IH [of j] k by (simp add: r)
  next
    case (Some a)
    then show ?thesis using k by (simp add: r)
  qed
qed

lemma sequential_batch_keeps:
  "status (fst (sequential_batch ty now job)) = status job \<and>
   priority (fst (sequential_batch ty now job)) = priority job \<and>
   created_at (fst (sequential_batch ty now job)) = created_at job"
  by (simp add: sequential_batch_def batch_loop_keeps split: sum.split)

text \<open>
  The loop of a sequential processor keeps \<open>processed_items\<close> the sum of the two other
  counters and adds one for every entry it enumerates.
\<close>

lemma batch_loop_counts:
  "processed_items job = successful_items job + failed_items job \<Longrightarrow>
   processed_items (fst (batch_loop ty now xs job)) =
     successful_items (fst (batch_loop ty now xs job)) + failed_items (fst (batch_loop ty now xs job)) \<and>
   processed_items (fst (batch_loop ty now xs job)) \<le> processed_items job + length xs \<and>
   (snd (batch_loop ty now xs job) = None \<longrightarrow>
      processed_items (fst (batch_loop ty now xs job)) = processed_items job + length xs)"
proof (induction xs arbitrary: job)
  case Nil
  then show ?case by simp
next
  case (Cons x xs)
  obtain j e where r: "item_body ty now job x = (j, e)" by (cases "item_body ty now job x")
  then have k: "processed_items j = successful_items j + failed_items j"
    "processed_items j = processed_items job + 1"
    using Cons.prems
    by (auto simp: item_body_def count_progress_def try_item_def mock_result_def Let_def
             split: if_splits)
  show ?case
  proof (cases e)
    case None
    then show ?thesis using Cons.IH [OF k(1)] k(2) by (auto simp: r)
  next
    case (Some a)
    then show ?thesis using k by (simp add: r)
  qed
qed

lemma conclude_status:
  "status (conclude now r) = COMPLETED \<or> status (conclude now r) = FAILED"
  by (simp add: conclude_def job_completed_def job_failed_def split: option.split)

lemma conclude_keeps:
  "priority (conclude now r) = priority (fst r)"
  "created_at (conclude now r) = created_at (fst r)"
  by (simp_all add: conclude_def job_completed_def job_failed_def split: option.split)

text \<open>
  The first step of a task either ends the task, with the job completed or failed, or
  suspends it with the job in status processing.
\<close>

lemma start_cases:
  assumes "BATCH_JOBS s jid = Some job0"
  obtains (ended) job' where
      "process_batch_job_start jid now s = finish_task jid (put_job jid job' s)"
      "status job' = COMPLETED \<or> status job' = FAILED" "same_key job0 job'"
    | (suspended) job' g where
      "process_batch_job_start jid now s =
         (put_gather jid g (put_job jid job' s))\<lparr>tasks := (tasks s)(jid \<mapsto> Awaiting False)\<rparr>"
      "status job' = PROCESSING" "\<not> killed g" "outer g = None" "same_key job0 job'"
proof -
  let ?job = "job0\<lparr>status := PROCESSING, started_at := Some now\<rparr>"
  have seq: "(status (conclude now (sequential_batch ty now ?job)) = COMPLETED
                 \<or> status (conclude now (sequential_batch ty now ?job)) = FAILED)
               \<and> same_key job0 (conclude now (sequential_batch ty now ?job))" for ty
    using sequential_batch_keeps [of ty now ?job]
    by (simp add: conclude_status conclude_keeps same_key_def)
  show ?thesis
  proof (cases "job_type job0")
    case NLP_ANALYSIS
    show ?thesis
    proof (cases "nlp_spawn ?job")
      case (Inl e)
      have "process_batch_job_start jid now s = finish_task jid (put_job jid (job_failed now e ?job) s)"
        using assms NLP_ANALYSIS Inl by (simp add: process_batch_job_start_def)
      then show ?thesis
        by (rule ended) (simp_all add: job_failed_def same_key_def)
    next
      case (Inr cs)
      show ?thesis
      proof (cases "cs = []")
        case True
        have "process_batch_job_start jid now s = finish_task jid (put_job jid (job_completed now ?job) s)"
          using assms NLP_ANALYSIS Inr True by (simp add: process_batch_job_start_def)
        then show ?thesis
          by (rule ended) (simp_all add: job_completed_def same_key_def)
      next
        case False
        have "process_batch_job_start jid now s =
                (put_gather jid \<lparr>children = cs, outer = None, killed = False\<rparr> (put_job jid ?job s))
                  \<lparr>tasks := (tasks s)(jid \<mapsto> Awaiting False)\<rparr>"
          using assms NLP_ANALYSIS Inr False by (simp add: process_batch_job_start_def)
        then show ?thesis
          by (rule suspended) (simp_all add: same_key_def)
      qed
    qed
  next
    case DOCUMENT_CLASSIFICATION
    have "process_batch_job_start jid now s =
            finish_task jid (put_job jid (conclude now (sequential_batch DOCUMENT_CLASSIFICATION now ?job)) s)"
      using assms DOCUMENT_CLASSIFICATION
      by (simp add: process_batch_job_start_def process_document_batch_def)
    then show ?thesis using seq [of DOCUMENT_CLASSIFICATION] by (intro ended) blast+
  next
    case RISK_ASSESSMENT
    have "process_batch_job_start jid now s =
            finish_task jid (put_job jid (conclude now (sequential_batch RISK_ASSESSMENT now ?job)) s)"
      using assms RISK_ASSESSMENT
      by (simp add: process_batch_job_start_def process_risk_batch_def)
    then show ?thesis using seq [of RISK_ASSESSMENT] by (intro ended) blast+
  next
    case REGULATORY_ANALYSIS
    have "process_batch_job_start jid now s =
            finish_task jid (put_job jid (conclude now (sequential_batch REGULATORY_ANALYSIS now ?job)) s)"
      using assms REGULATORY_ANALYSIS
      by (simp add: process_batch_job_start_def process_regulatory_batch_def)
    then show ?thesis using seq [of REGULATORY_ANALYSIS] by (intro ended) blast+
  next
    case MODEL_TRAINING
    have "process_batch_job_start jid now s =
            finish_task jid (put_job jid
              (job_failed now (ValueError ''Unknown job type: model_training'') ?job) s)"
      using assms MODEL_TRAINING by (simp add: process_batch_job_start_def)
    then show ?thesis
      by (rule ended) (simp_all add: job_failed_def same_key_def)
  next
    case BULK_PREDICTION
    have "process_batch_job_start jid now s =
            finish_task jid (put_job jid (conclude now (sequential_batch BULK_PREDICTION now ?job)) s)"
      using assms BULK_PREDICTION
      by (simp add: process_batch_job_start_def process_prediction_batch_def)
    then show ?thesis using seq [of BULK_PREDICTION] by (intro ended) blast+
  qed
qed

lemma put_job_same: "BATCH_JOBS s jid = Some job \<Longrightarrow> put_job jid job s = s"
  by (simp add: put_job_def map_upd_triv)

lemma settle_not_cancelled:
  "\<not> killed g \<Longrightarrow> outer g \<noteq> Some GCancelled \<Longrightarrow> settle g (map_option GExn e) rest \<noteq> Some GCancelled"
  by (cases "outer g"; cases e; simp add: settle_def)

lemma item_step_cases:
  assumes "item_step jid idx now s = Some s'"
  obtains (fields) g g' job job' where
    "gathers s jid = Some g" "BATCH_JOBS s jid = Some job"
    "s' = put_gather jid g' (put_job jid job' s)"
    "status job' = status job" "same_key job job'" "killed g' = killed g"
    "\<not> killed g \<Longrightarrow> outer g \<noteq> Some GCancelled \<Longrightarrow> outer g' \<noteq> Some GCancelled"
proof -
  from assms obtain g job where gj: "gathers s jid = Some g" "BATCH_JOBS s jid = Some job"
    by (auto simp: item_step_def split: option.splits)
  from assms gj obtain i item ph where c: "find (\<lambda>c. fst c = idx) (children g) = Some (i, item, ph)"
    by (auto simp: item_step_def split: option.splits)
  let ?rest = "filter (\<lambda>c. fst c \<noteq> idx) (children g)"
  have same: "put_job jid job s = s" using gj by (simp add: put_job_same)
  show ?thesis
  proof (cases "killed g")
    case True
    show ?thesis
    proof (cases "ph = Sleeping")
      case s: True
      let ?r = "count_progress job"
      let ?g' = "g\<lparr>children := ?rest,
                   outer := settle g (Some (case snd ?r of Some e \<Rightarrow> GExn e | None \<Rightarrow> GCancelled)) ?rest\<rparr>"
      have "s' = put_gather jid ?g' (put_job jid (fst ?r) s)"
        using assms gj c True s by (simp add: item_step_def Let_def)
      then show ?thesis
        by (rule that [OF gj]) (simp_all add: count_progress_keeps same_key_def True)
    next
      case ns: False
      let ?g' = "g\<lparr>children := ?rest, outer := settle g (Some GCancelled) ?rest\<rparr>"
      have "s' = put_gather jid ?g' (put_job jid job s)"
        using assms gj c True ns by (simp add: item_step_def Let_def same)
      then show ?thesis
        by (rule that [OF gj]) (simp_all add: same_key_def True)
    qed
  next
    case False
    show ?thesis
    proof (cases ph)
      case Created
      let ?g' = "g\<lparr>children := map (\<lambda>c. if fst c = idx
                                    then (fst c, fst (snd c), acquire job (children g))
                                    else c) (children g)\<rparr>"
      have "s' = put_gather jid ?g' (put_job jid job s)"
        using assms gj c False Created by (simp add: item_step_def Let_def same)
      then show ?thesis
        by (rule that [OF gj]) (simp_all add: same_key_def)
    next
      case Waiting
      then show ?thesis using assms gj c False by (simp add: item_step_def Let_def)
    next
      case Sleeping
      let ?r = "item_body NLP_ANALYSIS now job (i, item)"
      let ?rest' = "wake_next ?rest"
      let ?g' = "g\<lparr>children := ?rest', outer := settle g (map_option GExn (snd ?r)) ?rest'\<rparr>"
      have "s' = put_gather jid ?g' (put_job jid (fst ?r) s)"
        using assms gj c False Sleeping by (simp add: item_step_def Let_def)
      then show ?thesis
        by (rule that [OF gj]) (simp_all add: item_body_keeps same_key_def settle_not_cancelled)
    qed
  qed
qed

lemma cancel_cases:
  assumes "cancel_batch_job jid now s = Inr s'"
  obtains (fields) job where
    "BATCH_JOBS s jid = Some job" "status job \<noteq> COMPLETED"
    "BATCH_JOBS s' = (BATCH_JOBS s)(jid \<mapsto> job\<lparr>status := CANCELLED, completed_at := Some now\<rparr>)"
    "JOB_QUEUE s' = remove1 jid (JOB_QUEUE s)"
    "PROCESSING_JOBS s' =
       (if status job = PROCESSING then removeAll jid (PROCESSING_JOBS s) else PROCESSING_JOBS s)"
    "background s' = background s"
    "\<And>j. j \<noteq> jid \<Longrightarrow> tasks s' j = tasks s j"
    "\<And>j. j \<noteq> jid \<Longrightarrow> gathers s' j = gathers s j"
    "tasks s' jid = Some Scheduled \<Longrightarrow> tasks s jid = Some Scheduled"
    "tasks s' jid = None \<longleftrightarrow> tasks s jid = None"
proof -
  from assms obtain job where j: "BATCH_JOBS s jid = Some job" "status job \<noteq> COMPLETED"
    by (auto simp: cancel_batch_job_def split: option.splits if_splits)
  have ct: "BATCH_JOBS (cancel_task jid s) = BATCH_JOBS s" "JOB_QUEUE (cancel_task jid s) = JOB_QUEUE s"
     "background (cancel_task jid s) = background s"
     "\<And>j. j \<noteq> jid \<Longrightarrow> tasks (cancel_task jid s) j = tasks s j"
     "\<And>j. j \<noteq> jid \<Longrightarrow> gathers (cancel_task jid s) j = gathers s j"
     "tasks (cancel_task jid s) jid \<noteq> Some Scheduled"
     "tasks (cancel_task jid s) jid = None \<longleftrightarrow> tasks s jid = None"
    by (auto simp: cancel_task_def put_gather_def split: option.splits task.splits)
  show ?thesis
  proof (cases "status job = PROCESSING \<and> jid \<in> set (PROCESSING_JOBS s)")
    case True
    have "s' = put_job jid (job\<lparr>status := CANCELLED, completed_at := Some now\<rparr>)
                 ((cancel_task jid s)\<lparr>PROCESSING_JOBS := removeAll jid (PROCESSING_JOBS s),
                    JOB_QUEUE := remove1 jid (JOB_QUEUE s)\<rparr>)"
      using assms j True by (simp add: cancel_batch_job_def Let_def ct)
    then show ?thesis using True ct
      by (intro that [OF j]) (simp_all add: put_job_def)
  next
    case False
    have "s' = put_job jid (job\<lparr>status := CANCELLED, completed_at := Some now\<rparr>)
                 (s\<lparr>JOB_QUEUE := remove1 jid (JOB_QUEUE s)\<rparr>)"
      using assms j False by (simp add: cancel_batch_job_def Let_def)
    then show ?thesis using False
      by (intro that [OF j]) (auto simp: put_job_def)
  qed
qed

lemma admissible_cong:
  "BATCH_JOBS s' = BATCH_JOBS s \<Longrightarrow> admissible s' j = admissible s j"
  by (simp add: admissible_def)

lemma queue_pass_effect:
  "\<exists>n. n \<le> length (JOB_QUEUE s) \<and>
       JOB_QUEUE (process_job_queue s) = drop n (JOB_QUEUE s) \<and>
       BATCH_JOBS (process_job_queue s) = BATCH_JOBS s \<and>
       gathers (process_job_queue s) = gathers s \<and>
       background (process_job_queue s) = background s \<and>
       (\<forall>j. tasks (process_job_queue s) j =
              (if j \<in> set (take n (JOB_QUEUE s)) \<and> admissible s j then Some Scheduled else tasks s j)) \<and>
       set (PROCESSING_JOBS (process_job_queue s)) =
         set (PROCESSING_JOBS s) \<union> {j \<in> set (take n (JOB_QUEUE s)). admissible s j} \<and>
       length (PROCESSING_JOBS (process_job_queue s)) \<le> max 3 (length (PROCESSING_JOBS s))"
proof (induction s rule: process_job_queue.induct)
  case (1 s)
  show ?case
  proof (cases "JOB_QUEUE s")
    case Nil
    then show ?thesis
      by (intro exI [of _ 0]) (simp add: process_job_queue.simps [of s])
  next
    case (Cons jid rest)
    show ?thesis
    proof (cases "length (PROCESSING_JOBS s) < 3")
      case False
      then show ?thesis using Cons
        by (intro exI [of _ 0]) (simp add: process_job_queue.simps [of s])
    next
      case True
      let ?p = "s\<lparr>JOB_QUEUE := rest\<rparr>"
      let ?s1 = "if admissible ?p jid then create_task jid ?p else ?p"
      have unf: "process_job_queue s = process_job_queue ?s1"
        using Cons True by (simp add: process_job_queue.simps [of s])
      have s1: "JOB_QUEUE ?s1 = rest" "BATCH_JOBS ?s1 = BATCH_JOBS s" "gathers ?s1 = gathers s"
        "background ?s1 = background s"
        "\<And>j. tasks ?s1 j = (if j = jid \<and> admissible s jid then Some Scheduled else tasks s j)"
        "set (PROCESSING_JOBS ?s1) = set (PROCESSING_JOBS s) \<union> (if admissible s jid then {jid} else {})"
        "length (PROCESSING_JOBS ?s1) \<le> 3"
        using True by (auto simp: create_task_def admissible_def)
      have adm: "admissible ?s1 j = admissible s j" for j
        by (rule admissible_cong) (rule s1)
      from "1.IH" [OF Cons True] obtain n where n:
        "n \<le> length (JOB_QUEUE ?s1)"
        "JOB_QUEUE (process_job_queue ?s1) = drop n (JOB_QUEUE ?s1)"
        "BATCH_JOBS (process_job_queue ?s1) = BATCH_JOBS ?s1"
        "gathers (process_job_queue ?s1) = gathers ?s1"
        "background (process_job_queue ?s1) = background ?s1"
        "\<forall>j. tasks (process_job_queue ?s1) j =
              (if j \<in> set (take n (JOB_QUEUE ?s1)) \<and> admissible ?s1 j then Some Scheduled else tasks ?s1 j)"
        "set (PROCESSING_JOBS (process_job_queue ?s1)) =
           set (PROCESSING_JOBS ?s1) \<union> {j \<in> set (take n (JOB_QUEUE ?s1)). admissible ?s1 j}"
        "length (PROCESSING_JOBS (process_job_queue ?s1)) \<le> max 3 (length (PROCESSING_JOBS ?s1))"
        by blast
      show ?thesis
      proof (intro exI [of _ "Suc n"] conjI)
        show "Suc n \<le> length (JOB_QUEUE s)" using n(1) s1(1) Cons by simp
        show "JOB_QUEUE (process_job_queue s) = drop (Suc n) (JOB_QUEUE s)"
          using n(2) s1(1) Cons unf by simp
        show "BATCH_JOBS (process_job_queue s) = BATCH_JOBS s" using n(3) s1(2) unf by simp
        show "gathers (process_job_queue s) = gathers s" using n(4) s1(3) unf by simp
        show "background (process_job_queue s) = background s" using n(5) s1(4) unf by simp
        show "\<forall>j. tasks (process_job_queue s) j =
                (if j \<in> set (take (Suc n) (JOB_QUEUE s)) \<and> admissible s j then Some Scheduled else tasks s j)"
          using n(6) s1(1,5) adm Cons unf by auto
        show "set (PROCESSING_JOBS (process_job_queue s)) =
                set (PROCESSING_JOBS s) \<union> {j \<in> set (take (Suc n) (JOB_QUEUE s)). admissible s j}"
          using n(7) s1(1,6) adm Cons unf by auto
        show "length (PROCESSING_JOBS (process_job_queue s)) \<le> max 3 (length (PROCESSING_JOBS s))"
          using n(8) s1(7) unf by simp
      qed
    qed
  qed
qed


lemma create_fields:
  "BATCH_JOBS (snd (create_batch_job jid now req s)) = (BATCH_JOBS s)(jid \<mapsto> new_job jid now req)"
  "set (JOB_QUEUE (snd (create_batch_job jid now req s))) = insert jid (set (JOB_QUEUE s))"
  "jid \<notin> set (JOB_QUEUE s) \<Longrightarrow> distinct (JOB_QUEUE s) \<Longrightarrow>
     distinct (JOB_QUEUE (snd (create_batch_job jid now req s)))"
  "PROCESSING_JOBS (snd (create_batch_job jid now req s)) = PROCESSING_JOBS s"
  "tasks (snd (create_batch_job jid now req s)) = tasks s"
  "gathers (snd (create_batch_job jid now req s)) = gathers s"
  by (auto simp: create_batch_job_def Let_def)

lemma create_queue:
  assumes "\<forall>j \<in> set (JOB_QUEUE s). BATCH_JOBS s j \<noteq> None"
  shows "JOB_QUEUE (snd (create_batch_job jid now req s)) =
         sort_key (sort_priority ((BATCH_JOBS s)(jid \<mapsto> new_job jid now req))) (JOB_QUEUE s @ [jid])"
    and "fst (create_batch_job jid now req s) =
         Inr \<lparr>resp_job_id = jid, resp_status = PENDING, resp_total_items = length (req_items req),
              resp_queue_position =
                length (takeWhile (\<lambda>j. j \<noteq> jid) (JOB_QUEUE (snd (create_batch_job jid now req s)))) + 1\<rparr>"
    and "background (snd (create_batch_job jid now req s)) = background s + 1"
  using assms by (auto simp: create_batch_job_def Let_def list_all_iff new_job_def)

lemma finish_put_fields:
  "BATCH_JOBS (finish_task jid (put_job jid job s)) = (BATCH_JOBS s)(jid \<mapsto> job)"
  "JOB_QUEUE (finish_task jid (put_job jid job s)) = JOB_QUEUE s"
  "PROCESSING_JOBS (finish_task jid (put_job jid job s)) = removeAll jid (PROCESSING_JOBS s)"
  "tasks (finish_task jid (put_job jid job s)) = (tasks s)(jid \<mapsto> Finished)"
  "gathers (finish_task jid (put_job jid job s)) = gathers s"
  "background (finish_task jid (put_job jid job s)) = background s"
  by (simp_all add: finish_task_def put_job_def)

text \<open>What a step of a task, a step of an item and a cancellation change.\<close>

lemma finish_fields:
  "BATCH_JOBS (finish_task jid s) = BATCH_JOBS s"
  "JOB_QUEUE (finish_task jid s) = JOB_QUEUE s"
  "PROCESSING_JOBS (finish_task jid s) = removeAll jid (PROCESSING_JOBS s)"
  "tasks (finish_task jid s) = (tasks s)(jid \<mapsto> Finished)"
  "background (finish_task jid s) = background s"
  by (simp_all add: finish_task_def)

lemma job_step_effect:
  assumes "job_step jid now s = Some s'"
  shows "tasks s jid \<noteq> None \<and> JOB_QUEUE s' = JOB_QUEUE s \<and> background s' = background s \<and>
         (\<forall>j. j \<noteq> jid \<longrightarrow> tasks s' j = tasks s j \<and> BATCH_JOBS s' j = BATCH_JOBS s j) \<and>
         ((tasks s' jid = Some Finished \<and>
           PROCESSING_JOBS s' = removeAll jid (PROCESSING_JOBS s) \<and>
           (status_of s' jid = Some COMPLETED \<or> status_of s' jid = Some FAILED \<or>
            status_of s' jid = status_of s jid)) \<or>
          (tasks s jid = Some Scheduled \<and> tasks s' jid = Some (Awaiting False) \<and>
           PROCESSING_JOBS s' = PROCESSING_JOBS s \<and> status_of s' jid = Some PROCESSING))"
proof -
  from assms obtain t where t: "tasks s jid = Some t" by (auto simp: job_step_def split: option.splits)
  show ?thesis
  proof (cases t)
    case Scheduled
    then have e: "s' = process_batch_job_start jid now s" using assms t by (simp add: job_step_def)
    show ?thesis
    proof (cases "BATCH_JOBS s jid")
      case None
      then show ?thesis using t
        by (simp add: e process_batch_job_start_def finish_fields status_of_def)
    next
      case (Some job0)
      then show ?thesis
      proof (cases rule: start_cases [where now = now])
        case (ended job')
        then show ?thesis using t
          by (auto simp: e finish_put_fields status_of_def)
      next
        case (suspended job' g)
        then show ?thesis using t Scheduled
          by (simp add: e put_job_def put_gather_def status_of_def)
      qed
    qed
  next
    case (Awaiting mc)
    from assms t Awaiting obtain oc where
      e: "s' = process_batch_job_resume jid now oc s"
      by (auto simp: job_step_def split: option.splits)
    show ?thesis
    proof (cases "BATCH_JOBS s jid")
      case None
      then show ?thesis using t
        by (simp add: e process_batch_job_resume_def finish_fields status_of_def)
    next
      case (Some job0)
      show ?thesis using t
        by (cases oc)
           (simp_all add: e Some process_batch_job_resume_def finish_task_def put_job_def
              status_of_def job_completed_def job_failed_def)
    qed
  next
    case Finished
    then show ?thesis using assms t by (simp add: job_step_def)
  qed
qed

lemma item_step_effect:
  assumes "item_step jid idx now s = Some s'"
  shows "JOB_QUEUE s' = JOB_QUEUE s \<and> background s' = background s \<and>
         PROCESSING_JOBS s' = PROCESSING_JOBS s \<and> tasks s' = tasks s \<and>
         (\<forall>j. status_of s' j = status_of s j)"
  using assms
proof (cases rule: item_step_cases)
  case (fields g g' job job')
  show ?thesis using fields(2,4) by (simp add: fields(3) put_job_def put_gather_def status_of_def)
qed

lemma cancel_effect:
  assumes "cancel_batch_job jid now s = Inr s'"
  shows "status_of s' jid = Some CANCELLED \<and> background s' = background s \<and>
         JOB_QUEUE s' = remove1 jid (JOB_QUEUE s) \<and>
         PROCESSING_JOBS s' =
           (if status_of s jid = Some PROCESSING then removeAll jid (PROCESSING_JOBS s)
            else PROCESSING_JOBS s)"
  using assms
proof (cases rule: cancel_cases)
  case (fields job)
  show ?thesis by (simp add: status_of_def fields(1,3,4,5,6))
qed



text \<open>No event other than an admission pass gives a task to a job that has none.\<close>

lemma no_admission_step:
  assumes st: "step e s = Some s'" and e: "e \<noteq> QueuePass" and t: "tasks s j = None"
  shows "tasks s' j = None"
proof (cases e)
  case (Create jid now req)
  then show ?thesis using st t by (auto simp: create_fields split: if_splits)
next
  case (Cancel jid now)
  show ?thesis
  proof (cases "cancel_batch_job jid now s")
    case (Inl err)
    then show ?thesis using Cancel st t by simp
  next
    case (Inr s1)
    then have "tasks s1 j = None"
    proof (cases rule: cancel_cases)
      case (fields job)
      show ?thesis using fields(7) [of j] fields(10) t by (cases "j = jid") simp_all
    qed
    then show ?thesis using Cancel st Inr by simp
  qed
next
  case QueuePass
  then show ?thesis using e by simp
next
  case (JobStep jid now)
  then have "job_step jid now s = Some s'" using st by simp
  from job_step_effect [OF this] show ?thesis using t by (cases "j = jid") auto
next
  case (ItemStep jid idx now)
  then have "item_step jid idx now s = Some s'" using st by simp
  from item_step_effect [OF this] show ?thesis using t by simp
qed

lemma start_empty_completes:
  assumes r: "BATCH_JOBS (s2 :: state) jid = Some job" and t: "tasks s2 jid = Some Scheduled"
    and ty: "job_type job \<noteq> MODEL_TRAINING" and ps: "map_of (parameters job) ''items'' = None"
    and mw: "job_type job = NLP_ANALYSIS \<longrightarrow> 0 \<le> max_workers job"
  shows "step (JobStep jid t2) s2 =
           Some (finish_task jid (put_job jid
             (job_completed t2 (job\<lparr>status := PROCESSING, started_at := Some t2\<rparr>)) s2))"
proof -
  let ?job = "job\<lparr>status := PROCESSING, started_at := Some t2\<rparr>"
  have seq: "conclude t2 (sequential_batch ty t2 ?job) = job_completed t2 ?job" for ty
    using ps by (simp add: sequential_batch_def get_items_def enumerate_list_def conclude_def)
  have nlp: "job_type job = NLP_ANALYSIS \<Longrightarrow> nlp_spawn ?job = Inr []"
    using ps mw by (simp add: nlp_spawn_def get_items_def enumerate_list_def)
  show ?thesis
    using r t ty nlp seq
    by (cases "job_type job")
       (simp_all add: job_step_def process_batch_job_start_def process_document_batch_def
          process_risk_batch_def process_regulatory_batch_def process_prediction_batch_def)
qed

section \<open>The invariants hold along every run\<close>

lemmas inv_defs = invariant_def queue_ok_def tasks_ok_def pending_ok_def processing_ok_def slots_ok_def

lemma invariant_init: "invariant init_state"
  by (simp add: inv_defs init_state_def status_of_def)

lemma invariant_create:
  assumes i: "invariant s" and fresh: "BATCH_JOBS s jid = None"
  shows "invariant (snd (create_batch_job jid now req s))"
proof -
  let ?s' = "snd (create_batch_job jid now req s)"
  note f = create_fields [where jid = jid and now = now and req = req and s = s]
  have nq: "jid \<notin> set (JOB_QUEUE s)" using i fresh by (auto simp: inv_defs status_of_def)
  have nt: "tasks s jid = None" using i fresh by (auto simp: inv_defs)
  have st: "status_of ?s' j = (if j = jid then Some PENDING else status_of s j)" for j
    by (simp add: status_of_def f(1) new_job_def)
  have "queue_ok ?s'" using i nq nt f(3) by (auto simp: queue_ok_def invariant_def st f(2,5))
  moreover have "tasks_ok ?s'" using i nt
    by (auto simp: tasks_ok_def invariant_def st f(1,4,5))
  moreover have "pending_ok ?s'" using i by (auto simp: pending_ok_def invariant_def st f(2,5))
  moreover have "processing_ok ?s'" using i
    by (auto simp: processing_ok_def invariant_def st f(4,5,6))
  moreover have "slots_ok ?s'" using i by (simp add: slots_ok_def invariant_def f(4))
  ultimately show ?thesis by (simp add: invariant_def)
qed

lemma invariant_cancel:
  assumes i: "invariant s" and c: "cancel_batch_job jid now s = Inr s'"
  shows "invariant s'"
  using c
proof (cases rule: cancel_cases)
  case (fields job)
  note f = fields
  have st: "status_of s' j = (if j = jid then Some CANCELLED else status_of s j)" for j
    by (simp add: status_of_def f(3))
  have sj: "status_of s jid = Some (status job)" by (simp add: status_of_def f(1))
  have dq: "distinct (JOB_QUEUE s)" using i by (simp add: inv_defs)
  have "queue_ok s'" unfolding queue_ok_def
  proof (intro conjI ballI)
    show "distinct (JOB_QUEUE s')" using dq by (simp add: f(4))
    fix j assume "j \<in> set (JOB_QUEUE s')"
    then have "j \<noteq> jid" "j \<in> set (JOB_QUEUE s)" using dq by (auto simp: f(4))
    then show "status_of s' j = Some PENDING" "tasks s' j = None"
      using i f(7) by (auto simp: inv_defs st)
  qed
  moreover have "tasks_ok s'" unfolding tasks_ok_def
  proof (intro conjI allI impI)
    show "dom (tasks s') \<subseteq> dom (BATCH_JOBS s')"
    proof
      fix j assume "j \<in> dom (tasks s')"
      then have "tasks s' j \<noteq> None" by auto
      then have "tasks s j \<noteq> None" using f(7) [of j] f(10) by (cases "j = jid") auto
      then show "j \<in> dom (BATCH_JOBS s')" using i by (auto simp: inv_defs f(3))
    qed
    show "set (PROCESSING_JOBS s') \<subseteq> dom (tasks s')"
    proof
      fix j assume "j \<in> set (PROCESSING_JOBS s')"
      then have "j \<in> set (PROCESSING_JOBS s)" by (auto simp: f(5) split: if_splits)
      then have "tasks s j \<noteq> None" using i by (auto simp: inv_defs)
      then have "tasks s' j \<noteq> None" using f(7) [of j] f(10) by (cases "j = jid") auto
      then show "j \<in> dom (tasks s')" by auto
    qed
  next
    fix j assume a: "tasks s' j = Some Scheduled"
    then have b: "tasks s j = Some Scheduled" using f(7) [of j] f(9) by (cases "j = jid") auto
    then have c: "j \<in> set (PROCESSING_JOBS s)" "status_of s j \<noteq> Some PROCESSING"
      using i by (auto simp: inv_defs)
    show "j \<in> set (PROCESSING_JOBS s')" using c sj by (cases "j = jid") (auto simp: f(5))
    show "status_of s' j \<noteq> Some PROCESSING" using c by (simp add: st)
  qed
  moreover have "pending_ok s'" unfolding pending_ok_def
  proof (intro allI impI)
    fix j assume "status_of s' j = Some PENDING"
    then have "j \<noteq> jid" "status_of s j = Some PENDING" by (auto simp: st split: if_splits)
    then show "j \<in> set (JOB_QUEUE s') \<or> tasks s' j = Some Scheduled"
      using i f(7) by (auto simp: inv_defs f(4))
  qed
  moreover have "processing_ok s'" unfolding processing_ok_def
  proof (intro allI impI)
    fix j assume "status_of s' j = Some PROCESSING"
    then have "j \<noteq> jid" "status_of s j = Some PROCESSING" by (auto simp: st split: if_splits)
    then show "j \<in> set (PROCESSING_JOBS s') \<and> tasks s' j = Some (Awaiting False) \<and>
       (\<exists>g. gathers s' j = Some g \<and> \<not> killed g \<and> outer g \<noteq> Some GCancelled)"
      using i f(7,8) by (auto simp: inv_defs f(5))
  qed
  moreover have "slots_ok s'" using i
    by (auto simp: slots_ok_def invariant_def f(5) intro: order_trans [OF length_removeAll_less_eq])
  ultimately show ?thesis by (simp add: invariant_def)
qed

lemma invariant_queue_pass:
  assumes i: "invariant s"
  shows "invariant (process_job_queue s)"
proof -
  let ?s' = "process_job_queue s"
  from queue_pass_effect [of s] obtain n where n:
    "JOB_QUEUE ?s' = drop n (JOB_QUEUE s)"
    "BATCH_JOBS ?s' = BATCH_JOBS s"
    "\<forall>j. tasks ?s' j =
        (if j \<in> set (take n (JOB_QUEUE s)) \<and> admissible s j then Some Scheduled else tasks s j)"
    "set (PROCESSING_JOBS ?s') =
       set (PROCESSING_JOBS s) \<union> {j \<in> set (take n (JOB_QUEUE s)). admissible s j}"
    "length (PROCESSING_JOBS ?s') \<le> max 3 (length (PROCESSING_JOBS s))"
    "gathers ?s' = gathers s"
    by blast
  have st: "status_of ?s' j = status_of s j" for j by (simp add: status_of_def n(2))
  have tk: "tasks ?s' j =
      (if j \<in> set (take n (JOB_QUEUE s)) \<and> admissible s j then Some Scheduled else tasks s j)" for j
    using n(3) by blast
  have adm: "admissible s j \<longleftrightarrow> status_of s j = Some PENDING" for j
    by (auto simp: admissible_def status_of_def split: option.splits)
  have dq: "distinct (JOB_QUEUE s)" using i by (simp add: inv_defs)
  have split: "JOB_QUEUE s = take n (JOB_QUEUE s) @ drop n (JOB_QUEUE s)" by simp
  have disj: "j \<in> set (drop n (JOB_QUEUE s)) \<Longrightarrow> j \<notin> set (take n (JOB_QUEUE s))" for j
    using dq by (metis split distinct_append disjoint_iff)
  have mem: "j \<in> set (JOB_QUEUE s) \<longleftrightarrow> j \<in> set (take n (JOB_QUEUE s)) \<or> j \<in> set (drop n (JOB_QUEUE s))" for j
    by (metis split set_append Un_iff)
  have "queue_ok ?s'" unfolding queue_ok_def
  proof (intro conjI ballI)
    show "distinct (JOB_QUEUE ?s')" using dq by (simp add: n(1))
    fix j assume a: "j \<in> set (JOB_QUEUE ?s')"
    then have b: "j \<in> set (JOB_QUEUE s)" "j \<notin> set (take n (JOB_QUEUE s))"
      using disj mem by (auto simp: n(1))
    then show "status_of ?s' j = Some PENDING" "tasks ?s' j = None"
      using i by (auto simp: inv_defs st tk)
  qed
  moreover have "tasks_ok ?s'" unfolding tasks_ok_def
  proof (intro conjI allI impI)
    show "dom (tasks ?s') \<subseteq> dom (BATCH_JOBS ?s')"
    proof
      fix j assume "j \<in> dom (tasks ?s')"
      then have "admissible s j \<or> tasks s j \<noteq> None" by (auto simp: tk split: if_splits)
      then show "j \<in> dom (BATCH_JOBS ?s')"
        using i by (auto simp: inv_defs n(2) admissible_def split: option.splits)
    qed
    show "set (PROCESSING_JOBS ?s') \<subseteq> dom (tasks ?s')"
    proof
      fix j assume "j \<in> set (PROCESSING_JOBS ?s')"
      then have "j \<in> set (PROCESSING_JOBS s) \<or> j \<in> set (take n (JOB_QUEUE s)) \<and> admissible s j"
        by (auto simp: n(4))
      then show "j \<in> dom (tasks ?s')" using i by (auto simp: inv_defs tk)
    qed
  next
    fix j assume "tasks ?s' j = Some Scheduled"
    then have "j \<in> set (take n (JOB_QUEUE s)) \<and> admissible s j \<or> tasks s j = Some Scheduled"
      by (auto simp: tk split: if_splits)
    then show "j \<in> set (PROCESSING_JOBS ?s')" "status_of ?s' j \<noteq> Some PROCESSING"
      using i by (auto simp: inv_defs n(4) st adm)
  qed
  moreover have "pending_ok ?s'" unfolding pending_ok_def
  proof (intro allI impI)
    fix j assume "status_of ?s' j = Some PENDING"
    then have p: "status_of s j = Some PENDING" by (simp add: st)
    then have "j \<in> set (JOB_QUEUE s) \<or> tasks s j = Some Scheduled"
      using i by (auto simp: inv_defs)
    then show "j \<in> set (JOB_QUEUE ?s') \<or> tasks ?s' j = Some Scheduled"
      using p mem [of j] by (auto simp: n(1) adm tk)
  qed
  moreover have "processing_ok ?s'" unfolding processing_ok_def
  proof (intro allI impI)
    fix j assume "status_of ?s' j = Some PROCESSING"
    then have p: "status_of s j = Some PROCESSING" by (simp add: st)
    then have "\<not> admissible s j" by (simp add: adm)
    then show "j \<in> set (PROCESSING_JOBS ?s') \<and> tasks ?s' j = Some (Awaiting False) \<and>
       (\<exists>g. gathers ?s' j = Some g \<and> \<not> killed g \<and> outer g \<noteq> Some GCancelled)"
      using i p by (auto simp: inv_defs n(4,6) tk)
  qed
  moreover have "slots_ok ?s'" using i n(5) by (simp add: slots_ok_def invariant_def)
  ultimately show ?thesis by (simp add: invariant_def)
qed

lemma invariant_ended:
  assumes i: "invariant s" and t: "tasks s jid \<noteq> None" and r: "BATCH_JOBS s jid = Some job0"
    and e: "status job' \<noteq> PENDING" "status job' \<noteq> PROCESSING"
  shows "invariant (finish_task jid (put_job jid job' s))"
proof -
  let ?s' = "finish_task jid (put_job jid job' s)"
  note f = finish_put_fields [of jid job' s]
  have st: "status_of ?s' j = (if j = jid then Some (status job') else status_of s j)" for j
    by (simp add: status_of_def f(1))
  have nq: "jid \<notin> set (JOB_QUEUE s)" using i t by (auto simp: inv_defs)
  have "queue_ok ?s'" using i nq by (auto simp: queue_ok_def invariant_def st f(2,4))
  moreover have "tasks_ok ?s'" using i r
    by (auto simp: tasks_ok_def invariant_def st f(1,3,4))
  moreover have "pending_ok ?s'" using i e by (auto simp: pending_ok_def invariant_def st f(2,4))
  moreover have "processing_ok ?s'" using i e
    by (auto simp: processing_ok_def invariant_def st f(3,4,5))
  moreover have "slots_ok ?s'" using i
    by (auto simp: slots_ok_def invariant_def f(3) intro: order_trans [OF length_removeAll_less_eq])
  ultimately show ?thesis by (simp add: invariant_def)
qed

lemma invariant_suspended:
  assumes i: "invariant s" and t: "tasks s jid = Some Scheduled"
    and g: "\<not> killed g" "outer g = None" and p: "status job' = PROCESSING"
  shows "invariant ((put_gather jid g (put_job jid job' s))\<lparr>tasks := (tasks s)(jid \<mapsto> Awaiting False)\<rparr>)"
proof -
  let ?s' = "(put_gather jid g (put_job jid job' s))\<lparr>tasks := (tasks s)(jid \<mapsto> Awaiting False)\<rparr>"
  have f: "BATCH_JOBS ?s' = (BATCH_JOBS s)(jid \<mapsto> job')" "JOB_QUEUE ?s' = JOB_QUEUE s"
    "PROCESSING_JOBS ?s' = PROCESSING_JOBS s" "tasks ?s' = (tasks s)(jid \<mapsto> Awaiting False)"
    "gathers ?s' = (gathers s)(jid \<mapsto> g)"
    by (simp_all add: put_gather_def put_job_def)
  have st: "status_of ?s' j = (if j = jid then Some PROCESSING else status_of s j)" for j
    by (simp add: status_of_def f(1) p)
  have nq: "jid \<notin> set (JOB_QUEUE s)" using i t by (auto simp: inv_defs)
  have pj: "jid \<in> set (PROCESSING_JOBS s)" using i t by (auto simp: inv_defs)
  have "queue_ok ?s'" using i nq by (auto simp: queue_ok_def invariant_def st f(2,4))
  moreover have "tasks_ok ?s'" using i
    by (auto simp: tasks_ok_def invariant_def st f(1,3,4))
  moreover have "pending_ok ?s'" using i by (auto simp: pending_ok_def invariant_def st f(2,4))
  moreover have "processing_ok ?s'" using i pj g
    by (auto simp: processing_ok_def invariant_def st f(3,4,5))
  moreover have "slots_ok ?s'" using i by (simp add: slots_ok_def invariant_def f(3))
  ultimately show ?thesis by (simp add: invariant_def)
qed

lemma invariant_job_step:
  assumes i: "invariant s" and js: "job_step jid now s = Some s'"
  shows "invariant s'"
proof -
  from js obtain t where t: "tasks s jid = Some t" by (auto simp: job_step_def split: option.splits)
  then obtain job0 where r: "BATCH_JOBS s jid = Some job0" using i by (auto simp: inv_defs)
  show ?thesis
  proof (cases t)
    case Scheduled
    then have s': "s' = process_batch_job_start jid now s" using js t by (simp add: job_step_def)
    from r show ?thesis
    proof (cases rule: start_cases [where now = now])
      case (ended job')
      then show ?thesis using invariant_ended [OF i _ r, of job'] t s' by auto
    next
      case (suspended job' g)
      then show ?thesis using invariant_suspended [OF i _ suspended(3,4,2)] t Scheduled s' by simp
    qed
  next
    case (Awaiting mc)
    from js t Awaiting obtain g oc where g: "gathers s jid = Some g" "outer g = Some oc"
      and s': "s' = process_batch_job_resume jid now (if mc then GCancelled else oc) s"
      by (auto simp: job_step_def split: option.splits)
    have np: "status job0 \<noteq> PENDING" "status job0 \<noteq> PROCESSING \<or> (\<not> mc \<and> oc \<noteq> GCancelled)"
      using i t Awaiting r g by (auto simp: inv_defs status_of_def)
    show ?thesis
    proof (cases "if mc then GCancelled else oc")
      case GOk
      then have "s' = finish_task jid (put_job jid (job_completed now job0) s)"
        using s' r by (simp add: process_batch_job_resume_def)
      then show ?thesis using invariant_ended [OF i _ r, of "job_completed now job0"] t
        by (simp add: job_completed_def)
    next
      case (GExn e)
      then have "s' = finish_task jid (put_job jid (job_failed now e job0) s)"
        using s' r by (simp add: process_batch_job_resume_def)
      then show ?thesis using invariant_ended [OF i _ r, of "job_failed now e job0"] t
        by (simp add: job_failed_def)
    next
      case GCancelled
      then have "s' = finish_task jid (put_job jid job0 s)"
        using s' r by (simp add: process_batch_job_resume_def put_job_same)
      moreover have "status job0 \<noteq> PROCESSING" using np(2) GCancelled by (auto split: if_splits)
      ultimately show ?thesis using invariant_ended [OF i _ r, of job0] t np(1) by simp
    qed
  next
    case Finished
    then show ?thesis using js t by (simp add: job_step_def)
  qed
qed

lemma invariant_item_step:
  assumes i: "invariant s" and it: "item_step jid idx now s = Some s'"
  shows "invariant s'"
  using it
proof (cases rule: item_step_cases)
  case (fields g g' job job')
  have f: "BATCH_JOBS s' = (BATCH_JOBS s)(jid \<mapsto> job')" "JOB_QUEUE s' = JOB_QUEUE s"
    "PROCESSING_JOBS s' = PROCESSING_JOBS s" "tasks s' = tasks s"
    "gathers s' = (gathers s)(jid \<mapsto> g')"
    by (simp_all add: fields(3) put_gather_def put_job_def)
  have st: "status_of s' j = status_of s j" for j
    by (simp add: status_of_def f(1) fields(2,4))
  have "queue_ok s'" using i by (simp add: queue_ok_def invariant_def st f(2,4))
  moreover have "tasks_ok s'" using i
    by (auto simp: tasks_ok_def invariant_def st f(1,3,4))
  moreover have "pending_ok s'" using i by (simp add: pending_ok_def invariant_def st f(2,4))
  moreover have "processing_ok s'" unfolding processing_ok_def
  proof (intro allI impI)
    fix j assume "status_of s' j = Some PROCESSING"
    then have "j \<in> set (PROCESSING_JOBS s) \<and> tasks s j = Some (Awaiting False) \<and>
       (\<exists>g. gathers s j = Some g \<and> \<not> killed g \<and> outer g \<noteq> Some GCancelled)"
      using i by (simp add: processing_ok_def invariant_def st)
    then show "j \<in> set (PROCESSING_JOBS s') \<and> tasks s' j = Some (Awaiting False) \<and>
       (\<exists>g. gathers s' j = Some g \<and> \<not> killed g \<and> outer g \<noteq> Some GCancelled)"
      using fields(1,6,7) by (cases "j = jid") (auto simp: f(3,4,5))
  qed
  moreover have "slots_ok s'" using i by (simp add: slots_ok_def invariant_def f(3))
  ultimately show ?thesis by (simp add: invariant_def)
qed

lemma invariant_step:
  assumes "invariant s" and "step e s = Some s'"
  shows "invariant s'"
proof (cases e)
  case (Create jid now req)
  then show ?thesis using assms invariant_create [of s jid now req]
    by (auto split: if_splits)
next
  case (Cancel jid now)
  then show ?thesis using assms invariant_cancel [of s jid now]
    by (auto split: sum.splits)
next
  case QueuePass
  have "invariant (s\<lparr>background := background s - 1\<rparr>)"
    using assms(1) by (simp add: inv_defs status_of_def)
  then show ?thesis using QueuePass assms(2) invariant_queue_pass
    by (auto split: if_splits)
next
  case (JobStep jid now)
  then show ?thesis using assms invariant_job_step by simp
next
  case (ItemStep jid idx now)
  then show ?thesis using assms invariant_item_step by simp
qed

lemma invariant_run:
  "invariant s \<Longrightarrow> run es s = Some s' \<Longrightarrow> invariant s'"
proof (induction es arbitrary: s)
  case Nil
  then show ?case by simp
next
  case (Cons e es)
  then show ?case by (auto split: option.splits dest: invariant_step)
qed

lemma invariant_reachable: "run es init_state = Some s \<Longrightarrow> invariant s"
  using invariant_run [OF invariant_init] .

lemma queue_has_records: "invariant s \<Longrightarrow> \<forall>j \<in> set (JOB_QUEUE s). BATCH_JOBS s j \<noteq> None"
  by (auto simp: inv_defs status_of_def)

lemma count_list_distinct:
  "distinct xs \<Longrightarrow> count_list xs x = (if x \<in> set xs then 1 else 0)"
  by (induction xs) auto

text \<open>
  A retired job stays retired. In particular a job that is cancelled while its id is in
  the queue is never started: no task is ever created for it.
\<close>

lemma retired_step:
  assumes i: "invariant s" and d: "retired jid s" and st: "step e s = Some s'"
  shows "retired jid s'"
proof (cases e)
  case (Create j now req)
  then have f: "BATCH_JOBS s j = None" "s' = snd (create_batch_job j now req s)"
    using st by (auto split: if_splits)
  then have "j \<noteq> jid" using d by (auto simp: retired_def)
  then show ?thesis using d by (simp add: retired_def status_of_def f(2) create_fields)
next
  case (Cancel j now)
  show ?thesis
  proof (cases "cancel_batch_job j now s")
    case (Inl err)
    then show ?thesis using Cancel st d by simp
  next
    case (Inr s1)
    then have "retired jid s1"
    proof (cases rule: cancel_cases)
      case (fields job)
      show ?thesis
      proof (cases "j = jid")
        case True
        then show ?thesis using d fields(10) by (simp add: retired_def status_of_def fields(3))
      next
        case False
        then show ?thesis using d fields(7) [of jid] by (simp add: retired_def status_of_def fields(3))
      qed
    qed
    then show ?thesis using Cancel st Inr by simp
  qed
next
  case QueuePass
  define p where "p = s\<lparr>background := background s - 1\<rparr>"
  have s': "s' = process_job_queue p" using QueuePass st by (auto simp: p_def split: if_splits)
  from queue_pass_effect [of p] obtain n where n:
    "BATCH_JOBS (process_job_queue p) = BATCH_JOBS p"
    "\<forall>j. tasks (process_job_queue p) j =
        (if j \<in> set (take n (JOB_QUEUE p)) \<and> admissible p j then Some Scheduled else tasks p j)"
    by blast
  have "\<not> admissible p jid" using d by (auto simp: admissible_def retired_def status_of_def p_def)
  then have "tasks s' jid = tasks s jid" using n(2) by (simp add: s' p_def)
  then show ?thesis using d n(1) by (simp add: retired_def status_of_def s' p_def)
next
  case (JobStep j now)
  then have js: "job_step j now s = Some s'" using st by simp
  then obtain t where t: "tasks s j = Some t" by (auto simp: job_step_def split: option.splits)
  then have ne: "j \<noteq> jid" using d by (auto simp: retired_def)
  obtain job0 where r: "BATCH_JOBS s j = Some job0" using i t by (auto simp: inv_defs)
  have "BATCH_JOBS s' jid = BATCH_JOBS s jid \<and> tasks s' jid = tasks s jid"
  proof (cases t)
    case Scheduled
    then have e: "s' = process_batch_job_start j now s" using js t by (simp add: job_step_def)
    from r show ?thesis
      by (cases rule: start_cases [where now = now])
         (simp_all add: e ne ne [symmetric] finish_task_def put_job_def put_gather_def)
  next
    case (Awaiting mc)
    from js t Awaiting obtain oc where e: "s' = process_batch_job_resume j now oc s"
      by (auto simp: job_step_def split: option.splits)
    show ?thesis
      by (cases oc) (simp_all add: e r ne ne [symmetric] process_batch_job_resume_def finish_task_def put_job_def)
  next
    case Finished
    then show ?thesis using js t by (simp add: job_step_def)
  qed
  then show ?thesis using d by (simp add: retired_def status_of_def)
next
  case (ItemStep j idx now)
  then have "item_step j idx now s = Some s'" using st by simp
  then show ?thesis
  proof (cases rule: item_step_cases)
    case (fields g g' job job')
    then show ?thesis using d
      by (auto simp: retired_def status_of_def put_job_def put_gather_def)
  qed
qed

lemma retired_run:
  "invariant s \<Longrightarrow> retired jid s \<Longrightarrow> run es s = Some s' \<Longrightarrow> retired jid s'"
proof (induction es arbitrary: s)
  case Nil
  then show ?case by simp
next
  case (Cons e es)
  from Cons.prems(3) obtain s1 where s1: "step e s = Some s1" "run es s1 = Some s'"
    by (auto split: option.splits)
  show ?case
    using Cons.IH [OF invariant_step [OF Cons.prems(1) s1(1)]
        retired_step [OF Cons.prems(1,2) s1(1)] s1(2)] .
qed

lemma queued_cancel_is_final:
  assumes reach: "run es init_state = Some s"
    and q: "jid \<in> set (JOB_QUEUE s)"
    and c: "cancel_batch_job jid now s = Inr s1"
    and later: "run es' s1 = Some s2"
  shows "jid \<notin> set (JOB_QUEUE s1) \<and> status_of s1 jid = Some CANCELLED \<and>
         status_of s2 jid \<noteq> Some PROCESSING \<and> tasks s2 jid = None"
proof -
  have i: "invariant s" using reach by (rule invariant_reachable)
  have i1: "invariant s1" using i c by (rule invariant_cancel)
  have t: "tasks s jid = None" "distinct (JOB_QUEUE s)" using i q by (auto simp: inv_defs)
  from c have f: "jid \<notin> set (JOB_QUEUE s1) \<and> status_of s1 jid = Some CANCELLED \<and> retired jid s1"
  proof (cases rule: cancel_cases)
    case (fields job)
    show ?thesis using t fields(10) by (simp add: retired_def status_of_def fields(3,4))
  qed
  then have "retired jid s2" using retired_run [OF i1 _ later] by simp
  then show ?thesis using f by (simp add: retired_def)
qed

text \<open>
  A job that was cancelled before a task was created for it stays as it is.
\<close>

lemma withdrawn_step:
  assumes i: "invariant s" and d: "withdrawn s j" and st: "step e s = Some s'"
  shows "withdrawn s' j"
proof -
  have t: "tasks s j = None" and c: "status_of s j = Some CANCELLED"
    using d by (simp_all add: withdrawn_def)
  have "retired j s" using t c by (auto simp: retired_def status_of_def)
  then have "retired j s'" using i st by (intro retired_step [OF i _ st])
  then have t': "tasks s' j = None" by (simp add: retired_def)
  have "status_of s' j = Some CANCELLED"
  proof (cases e)
    case (Create jid now req)
    then have "BATCH_JOBS s jid = None" "s' = snd (create_batch_job jid now req s)"
      using st by (auto split: if_splits)
    then show ?thesis using c by (auto simp: status_of_def create_fields)
  next
    case (Cancel jid now)
    show ?thesis
    proof (cases "cancel_batch_job jid now s")
      case (Inl err)
      then show ?thesis using Cancel st c by simp
    next
      case (Inr s1)
      then have "status_of s1 j = Some CANCELLED"
      proof (cases rule: cancel_cases)
        case (fields job)
        show ?thesis using c by (simp add: status_of_def fields(3))
      qed
      then show ?thesis using Cancel st Inr by simp
    qed
  next
    case QueuePass
    define p where "p = s\<lparr>background := background s - 1\<rparr>"
    have "BATCH_JOBS (process_job_queue p) = BATCH_JOBS p" using queue_pass_effect [of p] by blast
    then show ?thesis using QueuePass st c by (auto simp: p_def status_of_def split: if_splits)
  next
    case (JobStep jid now)
    then have "job_step jid now s = Some s'" using st by simp
    note f = job_step_effect [OF this]
    have "j \<noteq> jid" using f t by auto
    then have "BATCH_JOBS s' j = BATCH_JOBS s j" using f by blast
    then show ?thesis using c by (simp add: status_of_def)
  next
    case (ItemStep jid idx now)
    then have "item_step jid idx now s = Some s'" using st by simp
    from item_step_effect [OF this] show ?thesis using c by simp
  qed
  then show ?thesis using t' by (simp add: withdrawn_def)
qed

lemma withdrawn_run:
  "invariant s \<Longrightarrow> withdrawn s j \<Longrightarrow> run es s = Some s' \<Longrightarrow> withdrawn s' j"
proof (induction es arbitrary: s)
  case Nil
  then show ?case by simp
next
  case (Cons e es)
  from Cons.prems(3) obtain s1 where s1: "step e s = Some s1" "run es s1 = Some s'"
    by (auto split: option.splits)
  show ?case
    using Cons.IH [OF invariant_step [OF Cons.prems(1) s1(1)]
        withdrawn_step [OF Cons.prems(1,2) s1(1)] s1(2)] .
qed

lemma submitted_Cons: "submitted (e # es) = submitted [e] @ submitted es"
  by (cases e) simp_all

text \<open>
  While no pass is registered and no job is submitted, no pass runs: no job is given a
  task, and a queued job leaves the queue only by being cancelled.
\<close>

lemma idle_step:
  assumes i: "invariant s" and b: "background s = 0" and e: "submitted [e] = []"
    and st: "step e s = Some s'"
  shows "background s' = 0 \<and> (\<forall>j. tasks s j = None \<longrightarrow> tasks s' j = None) \<and>
         set (JOB_QUEUE s') \<subseteq> set (JOB_QUEUE s) \<and>
         (\<forall>j \<in> set (JOB_QUEUE s). j \<in> set (JOB_QUEUE s') \<or> withdrawn s' j)"
proof -
  have nq: "e \<noteq> QueuePass" using st b by auto
  have tk: "\<forall>j. tasks s j = None \<longrightarrow> tasks s' j = None"
    using no_admission_step [OF st nq] by blast
  show ?thesis
  proof (cases e)
    case (Create jid now req)
    then show ?thesis using e by simp
  next
    case (Cancel jid now)
    show ?thesis
    proof (cases "cancel_batch_job jid now s")
      case (Inl err)
      then show ?thesis using Cancel st b by auto
    next
      case (Inr s1)
      then have s1: "s' = s1" using Cancel st by simp
      have q: "jid \<in> set (JOB_QUEUE s) \<Longrightarrow> tasks s jid = None" "distinct (JOB_QUEUE s)"
        using i by (auto simp: inv_defs)
      from cancel_effect [OF Inr] have f: "status_of s' jid = Some CANCELLED"
        "background s' = background s" "JOB_QUEUE s' = remove1 jid (JOB_QUEUE s)"
        by (simp_all add: s1)
      have rec: "BATCH_JOBS s' jid \<noteq> None" using f(1) by (auto simp: status_of_def)
      have "withdrawn s' jid" if "jid \<in> set (JOB_QUEUE s)"
        using that q(1) tk f(1) rec by (simp add: withdrawn_def)
      then have "\<forall>j \<in> set (JOB_QUEUE s). j \<in> set (JOB_QUEUE s') \<or> withdrawn s' j"
        using q(2) by (auto simp: f(3))
      moreover have "set (JOB_QUEUE s') \<subseteq> set (JOB_QUEUE s)"
        unfolding f(3) by (rule set_remove1_subset)
      ultimately show ?thesis using tk b f(2) by simp
    qed
  next
    case QueuePass
    then show ?thesis using nq by simp
  next
    case (JobStep jid now)
    then have "job_step jid now s = Some s'" using st by simp
    from job_step_effect [OF this] show ?thesis using tk b by simp
  next
    case (ItemStep jid idx now)
    then have "item_step jid idx now s = Some s'" using st by simp
    from item_step_effect [OF this] show ?thesis using tk b by simp
  qed
qed

lemma idle_run:
  "invariant s \<Longrightarrow> background s = 0 \<Longrightarrow> submitted es = [] \<Longrightarrow> run es s = Some s' \<Longrightarrow>
   background s' = 0 \<and> (\<forall>j. tasks s j = None \<longrightarrow> tasks s' j = None) \<and>
   set (JOB_QUEUE s') \<subseteq> set (JOB_QUEUE s) \<and>
   (\<forall>j \<in> set (JOB_QUEUE s). j \<in> set (JOB_QUEUE s') \<or> withdrawn s' j)"
proof (induction es arbitrary: s)
  case Nil
  then show ?case by simp
next
  case (Cons e es)
  from Cons.prems(4) obtain s1 where s1: "step e s = Some s1" "run es s1 = Some s'"
    by (auto split: option.splits)
  have sub: "submitted [e] = []" "submitted es = []"
    using Cons.prems(3) submitted_Cons [of e es] by simp_all
  have i1: "invariant s1" using Cons.prems(1) s1(1) by (rule invariant_step)
  note a = idle_step [OF Cons.prems(1,2) sub(1) s1(1)]
  from a have b1: "background s1 = 0" by simp
  note b = Cons.IH [OF i1 b1 sub(2) s1(2)]
  have "j \<in> set (JOB_QUEUE s') \<or> withdrawn s' j" if "j \<in> set (JOB_QUEUE s)" for j
  proof -
    from a that have "j \<in> set (JOB_QUEUE s1) \<or> withdrawn s1 j" by blast
    then show ?thesis
    proof
      assume "j \<in> set (JOB_QUEUE s1)"
      then show ?thesis using b by blast
    next
      assume "withdrawn s1 j"
      then have "withdrawn s' j" using withdrawn_run [OF i1 _ s1(2)] by blast
      then show ?thesis ..
    qed
  qed
  moreover have "set (JOB_QUEUE s') \<subseteq> set (JOB_QUEUE s)" using a b by blast
  moreover have "\<forall>j. tasks s j = None \<longrightarrow> tasks s' j = None" using a b by blast
  ultimately show ?case using b by blast
qed

section \<open>The order of the queue\<close>




lemma job_key_same:
  assumes "BATCH_JOBS s jid = Some job" "same_key job job'"
  shows "job_key (s\<lparr>BATCH_JOBS := (BATCH_JOBS s)(jid \<mapsto> job')\<rparr>) = job_key s"
  using assms by (auto simp: job_key_def same_key_def fun_eq_iff)















subsection \<open>Priority, then order of submission\<close>















subsection \<open>The order in which queued jobs start\<close>




lemma find_append:
  "find P (xs @ ys) = (case find P xs of None \<Rightarrow> find P ys | Some x \<Rightarrow> Some x)"
  by (induction xs) auto































text \<open>
  The condition on the order of the first steps is needed: the transition system admits
  \<open>unordered_run\<close>, in which one pass creates the task of \<^verbatim>\<open>B\<close> and then the task of
  \<^verbatim>\<open>A\<close>, and the task of \<^verbatim>\<open>A\<close> takes its first step before the one of \<^verbatim>\<open>B\<close>.
\<close>

lemma first_steps_unordered:
  "run unordered_run init_state \<noteq> None \<and>
   PROCESSING_JOBS (state_after (take 3 unordered_run)) = [''B'', ''A''] \<and>
   \<not> fifo_run unordered_run init_state \<and>
   status_of (state_after unordered_run) ''A'' = Some PROCESSING \<and>
   status_of (state_after unordered_run) ''B'' = Some PENDING \<and>
   tasks (state_after unordered_run) ''B'' = Some Scheduled"
  by (simp add: eval_defs next_start_def)

section \<open>The claims\<close>

subsection \<open>C1: every item of a job is processed once\<close>

text \<open>
  Claim C1 says that the executor submits every element of the job's items to the item
  processor exactly once, so that a completed job has \<open>processed_items = total_items\<close> and
  every item in its results or errors. The processors iterate over
  \<^verbatim>\<open>job.parameters.get("items", [])\<close> instead, and the request's items are not stored in
  the job. The request of the demonstration script (five items, the analysis options as
  parameters) is accepted, admitted and completed with no item processed: the theorem
  evaluates that run.
\<close>

theorem C1_demo_job_processes_nothing:
  "run demo_run init_state \<noteq> None \<and>
   map_option status (job_after demo_run ''j'') = Some COMPLETED \<and>
   map_option total_items (job_after demo_run ''j'') = Some 5 \<and>
   map_option processed_items (job_after demo_run ''j'') = Some 0 \<and>
   map_option results (job_after demo_run ''j'') = Some [] \<and>
   map_option errors (job_after demo_run ''j'') = Some []"
  by (simp add: eval_defs)

subsection \<open>C2: the counters and the progress percentage\<close>

text \<open>
  Claim C2 says that at every point during and after execution
  \<open>processed_items = successful_items + failed_items\<close>, \<open>processed_items \<le> total_items\<close> and
  \<open>progress_percentage = 100 * processed_items / total_items\<close>. Because the processors
  count the entries under the key \<^verbatim>\<open>items\<close> of the parameters while \<open>total_items\<close> counts
  the items of the request, both fail. The request of the repository's test (one item,
  no parameters) completes with no item processed and the progress at 100; a request
  that lists two entries in its parameters and one item completes with two items
  processed out of one, the progress standing at 200 when the loop ends. The theorem
  evaluates both runs. The first equation does hold along the loop (lemma
  \<open>batch_loop_counts\<close>).
\<close>

theorem C2_counters_and_progress_disagree:
  "run test_run init_state \<noteq> None \<and>
   map_option status (job_after test_run ''j'') = Some COMPLETED \<and>
   map_option total_items (job_after test_run ''j'') = Some 1 \<and>
   map_option processed_items (job_after test_run ''j'') = Some 0 \<and>
   map_option progress_percentage (job_after test_run ''j'') = Some 100 \<and>
   run listed_run init_state \<noteq> None \<and>
   map_option status (job_after listed_run ''j'') = Some COMPLETED \<and>
   map_option total_items (job_after listed_run ''j'') = Some 1 \<and>
   map_option processed_items (job_after listed_run ''j'') = Some 2 \<and>
   progress_percentage
     (fst (process_document_batch 1 (new_job ''j'' 0 (listed_request DOCUMENT_CLASSIFICATION 5)))) = 200"
  by (simp add: eval_defs)

subsection \<open>C3: a job with no items\<close>

text \<open>
  Claim C3, as amended: a request with an empty list of items is accepted in every
  reachable state, whatever its other fields are; and when its job type is one of the
  five types the executor handles, its parameters have no entry under the key
  \<^verbatim>\<open>items\<close>, and (for \<open>NLP_ANALYSIS\<close>) \<open>max_workers\<close> is not negative, the first step of
  its task takes the job to status completed with the progress at 100 and no item
  processed.
\<close>

theorem C3_empty_job_completes:
  assumes reach: "run es init_state = Some s" and fresh: "BATCH_JOBS s jid = None"
    and empty: "req_items req = []"
  shows "(\<exists>pos. fst (create_batch_job jid now req s) =
            Inr \<lparr>resp_job_id = jid, resp_status = PENDING, resp_total_items = 0,
                 resp_queue_position = pos\<rparr>) \<and>
         step (Create jid now req) s = Some (snd (create_batch_job jid now req s)) \<and>
         BATCH_JOBS (snd (create_batch_job jid now req s)) jid = Some (new_job jid now req) \<and>
         (req_job_type req \<noteq> MODEL_TRAINING \<and>
          map_of (req_parameters req) ''items'' = None \<and>
          (req_job_type req = NLP_ANALYSIS \<longrightarrow> 0 \<le> req_max_workers req) \<longrightarrow>
          (\<forall>(s2 :: state) t2.
             BATCH_JOBS s2 jid = Some (new_job jid now req) \<and> tasks s2 jid = Some Scheduled \<longrightarrow>
             (\<exists>s3 job'. step (JobStep jid t2) s2 = Some s3 \<and> BATCH_JOBS s3 jid = Some job' \<and>
                status job' = COMPLETED \<and> progress_percentage job' = 100 \<and>
                processed_items job' = 0)))"
proof (intro conjI allI impI)
  have recs: "\<forall>j \<in> set (JOB_QUEUE s). BATCH_JOBS s j \<noteq> None"
    using reach by (intro queue_has_records invariant_reachable)
  show "\<exists>pos. fst (create_batch_job jid now req s) =
            Inr \<lparr>resp_job_id = jid, resp_status = PENDING, resp_total_items = 0,
                 resp_queue_position = pos\<rparr>"
    using create_queue(2) [OF recs, of jid now req] empty by auto
  show "step (Create jid now req) s = Some (snd (create_batch_job jid now req s))"
    using fresh by simp
  show "BATCH_JOBS (snd (create_batch_job jid now req s)) jid = Some (new_job jid now req)"
    by (simp add: create_fields)
next
  fix s2 :: state and t2 :: timestamp
  assume c: "req_job_type req \<noteq> MODEL_TRAINING \<and>
          map_of (req_parameters req) ''items'' = None \<and>
          (req_job_type req = NLP_ANALYSIS \<longrightarrow> 0 \<le> req_max_workers req)"
  assume a: "BATCH_JOBS s2 jid = Some (new_job jid now req) \<and> tasks s2 jid = Some Scheduled"
  have "step (JobStep jid t2) s2 =
           Some (finish_task jid (put_job jid
             (job_completed t2 ((new_job jid now req)\<lparr>status := PROCESSING, started_at := Some t2\<rparr>)) s2))"
    using a c by (intro start_empty_completes) (simp_all add: new_job_def)
  then show "\<exists>s3 job'. step (JobStep jid t2) s2 = Some s3 \<and> BATCH_JOBS s3 jid = Some job' \<and>
               status job' = COMPLETED \<and> progress_percentage job' = 100 \<and>
               processed_items job' = 0"
    by (simp add: finish_put_fields job_completed_def new_job_def empty)
qed

text \<open>
  The amended statement at a request for an NLP analysis of no items: the request is
  accepted, the admission pass creates the task, and the task's first step completes the
  job.
\<close>

theorem C3_empty_job_completes_witness:
  "req_items empty_nlp_request = [] \<and>
   step (Create ''j'' 0 empty_nlp_request) init_state =
     Some (snd (create_batch_job ''j'' 0 empty_nlp_request init_state)) \<and>
   tasks (state_after [Create ''j'' 0 empty_nlp_request, QueuePass]) ''j'' = Some Scheduled \<and>
   (\<exists>s3 job'. step (JobStep ''j'' 1) (state_after [Create ''j'' 0 empty_nlp_request, QueuePass]) = Some s3 \<and>
      BATCH_JOBS s3 ''j'' = Some job' \<and> status job' = COMPLETED \<and>
      progress_percentage job' = 100 \<and> processed_items job' = 0)"
proof -
  have h: "run [] init_state = Some init_state" "BATCH_JOBS init_state ''j'' = None"
    "req_items empty_nlp_request = []"
    by (simp_all add: eval_defs empty_nlp_request_def)
  have c: "req_job_type empty_nlp_request \<noteq> MODEL_TRAINING \<and>
    map_of (req_parameters empty_nlp_request) ''items'' = None \<and>
    (req_job_type empty_nlp_request = NLP_ANALYSIS \<longrightarrow> 0 \<le> req_max_workers empty_nlp_request)"
    by (simp add: eval_defs empty_nlp_request_def)
  have s2: "BATCH_JOBS (state_after [Create ''j'' 0 empty_nlp_request, QueuePass]) ''j'' =
              Some (new_job ''j'' 0 empty_nlp_request) \<and>
            tasks (state_after [Create ''j'' 0 empty_nlp_request, QueuePass]) ''j'' = Some Scheduled"
    by (simp add: eval_defs empty_nlp_request_def)
  show ?thesis
    using C3_empty_job_completes [OF h, of 0] c s2 h(3) by blast
qed

text \<open>
  As stated, the property fails for a job of type \<open>MODEL_TRAINING\<close>: with no items it is
  accepted and admitted, and it ends in status failed.
\<close>

theorem C3_training_job_with_no_items_fails:
  "run training_run init_state \<noteq> None \<and>
   map_option total_items (job_after training_run ''j'') = Some 0 \<and>
   map_option status (job_after training_run ''j'') = Some FAILED"
  by (simp add: eval_defs)

subsection \<open>C4: at most three jobs are processing\<close>

text \<open>
  Claim C4: in every state that a sequence of submissions, cancellations, admission
  passes and task steps reaches, at most three jobs have status processing. Every such
  job is a key of \<open>PROCESSING_JOBS\<close>, which never holds more than three keys; an admission
  pass that finds three keys starts nothing, and no pass leaves more than three.
\<close>

theorem C4_at_most_three_processing:
  assumes "run es init_state = Some s"
  shows "card {jid. status_of s jid = Some PROCESSING} \<le> 3 \<and>
         {jid. status_of s jid = Some PROCESSING} \<subseteq> set (PROCESSING_JOBS s) \<and>
         length (PROCESSING_JOBS s) \<le> 3 \<and>
         (3 \<le> length (PROCESSING_JOBS s) \<longrightarrow> process_job_queue s = s) \<and>
         length (PROCESSING_JOBS (process_job_queue s)) \<le> 3"
proof -
  have i: "invariant s" using assms by (rule invariant_reachable)
  have sub: "{jid. status_of s jid = Some PROCESSING} \<subseteq> set (PROCESSING_JOBS s)"
    using i by (auto simp: inv_defs)
  have len: "length (PROCESSING_JOBS s) \<le> 3" using i by (simp add: inv_defs)
  have "card {jid. status_of s jid = Some PROCESSING} \<le> card (set (PROCESSING_JOBS s))"
    using sub by (intro card_mono) simp_all
  also have "\<dots> \<le> length (PROCESSING_JOBS s)" by (rule card_length)
  finally have c: "card {jid. status_of s jid = Some PROCESSING} \<le> 3" using len by simp
  have full: "3 \<le> length (PROCESSING_JOBS s) \<longrightarrow> process_job_queue s = s"
    by (simp add: process_job_queue.simps [of s] split: list.splits)
  have "length (PROCESSING_JOBS (process_job_queue s)) \<le> 3"
    using queue_pass_effect [of s] len by auto
  then show ?thesis using c sub len full by simp
qed

text \<open>
  The statement at \<open>busy_run\<close>, after which three jobs are processing and the fourth is
  pending: a further admission pass leaves the state as it is.
\<close>

theorem C4_at_most_three_processing_witness:
  "run busy_run init_state = Some (state_after busy_run) \<and>
   status_of (state_after busy_run) ''a'' = Some PROCESSING \<and>
   status_of (state_after busy_run) ''b'' = Some PROCESSING \<and>
   status_of (state_after busy_run) ''c'' = Some PROCESSING \<and>
   status_of (state_after busy_run) ''d'' = Some PENDING \<and>
   card {jid. status_of (state_after busy_run) jid = Some PROCESSING} \<le> 3 \<and>
   length (PROCESSING_JOBS (state_after busy_run)) = 3 \<and>
   process_job_queue (state_after busy_run) = state_after busy_run"
proof -
  have r: "run busy_run init_state = Some (state_after busy_run)"
    by (rule run_some_state_after) (simp add: eval_defs)
  have p: "status_of (state_after busy_run) ''a'' = Some PROCESSING"
    "status_of (state_after busy_run) ''b'' = Some PROCESSING"
    "status_of (state_after busy_run) ''c'' = Some PROCESSING"
    "status_of (state_after busy_run) ''d'' = Some PENDING"
    "length (PROCESSING_JOBS (state_after busy_run)) = 3"
    by (simp_all add: eval_defs)
  show ?thesis using C4_at_most_three_processing [OF r] r p by simp
qed

subsection \<open>C5: cancelling a job that has ended\<close>

text \<open>
  Claim C5, as amended: cancelling a job in status completed fails with status 400 and
  leaves the state unchanged; cancelling a job in status failed or cancelled succeeds,
  sets the status to cancelled and overwrites \<open>completed_at\<close> with the time of the call.
\<close>

theorem C5_cancel_terminal_job:
  assumes "BATCH_JOBS s jid = Some job"
  shows "(status job = COMPLETED \<longrightarrow>
            cancel_batch_job jid now s = Inl (HTTPException 400 ''Cannot cancel completed job'') \<and>
            step (Cancel jid now) s = Some s) \<and>
         (status job = FAILED \<or> status job = CANCELLED \<longrightarrow>
            (\<exists>s'. cancel_batch_job jid now s = Inr s' \<and> step (Cancel jid now) s = Some s' \<and>
                  BATCH_JOBS s' jid = Some (job\<lparr>status := CANCELLED, completed_at := Some now\<rparr>)))"
  using assms by (auto simp: cancel_batch_job_def Let_def put_job_def)

text \<open>
  The amended statement at the completed job of the test run, and at a job that was
  cancelled at time 1 and is cancelled again at time 2.
\<close>

theorem C5_cancel_terminal_job_witness:
  "map_option status (job_after test_run ''j'') = Some COMPLETED \<and>
   cancel_batch_job ''j'' 2 (state_after test_run) =
     Inl (HTTPException 400 ''Cannot cancel completed job'') \<and>
   step (Cancel ''j'' 2) (state_after test_run) = Some (state_after test_run) \<and>
   map_option status (job_after cancel_run ''j'') = Some CANCELLED \<and>
   (\<exists>s'. cancel_batch_job ''j'' 2 (state_after cancel_run) = Inr s' \<and>
         map_option completed_at (BATCH_JOBS s' ''j'') = Some (Some 2))"
proof -
  obtain job where j: "BATCH_JOBS (state_after test_run) ''j'' = Some job" "status job = COMPLETED"
    by (simp add: eval_defs)
  obtain job2 where k: "BATCH_JOBS (state_after cancel_run) ''j'' = Some job2"
    "status job2 = CANCELLED"
    by (simp add: eval_defs)
  have a: "cancel_batch_job ''j'' 2 (state_after test_run) =
             Inl (HTTPException 400 ''Cannot cancel completed job'')"
    "step (Cancel ''j'' 2) (state_after test_run) = Some (state_after test_run)"
    using C5_cancel_terminal_job [OF j(1), of 2] j(2) by simp_all
  have b: "\<exists>s'. cancel_batch_job ''j'' 2 (state_after cancel_run) = Inr s' \<and>
         map_option completed_at (BATCH_JOBS s' ''j'') = Some (Some 2)"
    using C5_cancel_terminal_job [OF k(1), of 2] k(2) by auto
  have c: "map_option status (job_after test_run ''j'') = Some COMPLETED"
    "map_option status (job_after cancel_run ''j'') = Some CANCELLED"
    using j k by (simp_all add: job_after_def)
  show ?thesis using a b c by simp
qed

text \<open>
  As stated, the property fails: the second cancellation of a cancelled job is not
  refused, and it moves \<open>completed_at\<close> from 1 to 2.
\<close>

theorem C5_second_cancel_succeeds:
  "run cancel_run init_state \<noteq> None \<and>
   map_option status (job_after cancel_run ''j'') = Some CANCELLED \<and>
   map_option completed_at (job_after cancel_run ''j'') = Some (Some 1) \<and>
   \<not> isl (cancel_batch_job ''j'' 2 (state_after cancel_run)) \<and>
   map_option completed_at (job_after (cancel_run @ [Cancel ''j'' 2]) ''j'') = Some (Some 2)"
  by (simp add: eval_defs)

subsection \<open>C6: the queue is ordered by priority, then by order of submission\<close>




subsection \<open>C7: a cancelled pending job is never started\<close>

text \<open>
  Claim C7 says that after a pending job is cancelled it never has status processing.
  The admission pass checks the status when it creates the task, and the task sets
  \<^verbatim>\<open>job.status = BatchStatus.PROCESSING\<close> without a check when it runs its first step. A
  cancellation that is handled between the two finds the job pending and outside the
  queue, marks it cancelled, and cancels no task (it does that for a job in status
  processing only); the task then starts the job. The theorem evaluates that run: the job
  is pending before the cancellation, cancelled and not queued after it, and processing
  after the task's first step. A job that is cancelled while its id is still in the queue
  is never started (lemma \<open>queued_cancel_is_final\<close>).
\<close>

theorem C7_cancelled_job_is_started:
  "run (race_run @ [JobStep ''j'' 2]) init_state \<noteq> None \<and>
   status_of (state_after (take 2 race_run)) ''j'' = Some PENDING \<and>
   status_of (state_after race_run) ''j'' = Some CANCELLED \<and>
   ''j'' \<notin> set (JOB_QUEUE (state_after race_run)) \<and>
   status_of (state_after (race_run @ [JobStep ''j'' 2])) ''j'' = Some PROCESSING"
  by (simp add: eval_defs)

subsection \<open>C8: what triggers an admission pass\<close>

text \<open>
  Claim C8, as amended: an admission pass is registered by a submission and by nothing
  else; a pass runs only while one is registered, and uses it up; and only a pass gives a
  task to a job that has none. The step of a task that ends the task removes the key of
  its job from \<open>PROCESSING_JOBS\<close>, as it does whenever it takes the job to completed or
  failed, and it leaves the queue and the number of registered passes unchanged. A
  cancellation that is accepted sets the status to cancelled, takes its own job out of
  the queue, removes the key of the job from \<open>PROCESSING_JOBS\<close> if the job was processing,
  and leaves the number of registered passes unchanged; one that is refused changes
  nothing. A step of an item changes neither the queue nor \<open>PROCESSING_JOBS\<close> nor the
  number of registered passes. Hence, from a state in which no pass is registered and
  along events that submit no job, no job is given a task, no id enters the queue, and a
  queued job stays queued unless it is cancelled.
\<close>

theorem C8_admission_only_on_submission:
  assumes "run es init_state = Some s" and "step e s = Some s'"
  shows "(\<forall>jid now req. e = Create jid now req \<longrightarrow> background s' = background s + 1) \<and>
         (e = QueuePass \<longrightarrow> 0 < background s \<and> background s' = background s - 1) \<and>
         (e \<noteq> QueuePass \<longrightarrow> (\<forall>j. tasks s j = None \<longrightarrow> tasks s' j = None)) \<and>
         (\<forall>jid now. e = JobStep jid now \<longrightarrow>
            background s' = background s \<and> JOB_QUEUE s' = JOB_QUEUE s \<and>
            ((tasks s' jid = Some Finished \<and>
              PROCESSING_JOBS s' = removeAll jid (PROCESSING_JOBS s)) \<or>
             (status_of s' jid = Some PROCESSING \<and> PROCESSING_JOBS s' = PROCESSING_JOBS s)) \<and>
            (status_of s' jid = Some COMPLETED \<or> status_of s' jid = Some FAILED \<longrightarrow>
               jid \<notin> set (PROCESSING_JOBS s'))) \<and>
         (\<forall>jid now. e = Cancel jid now \<longrightarrow>
            background s' = background s \<and>
            (s' = s \<or>
             (status_of s' jid = Some CANCELLED \<and> JOB_QUEUE s' = remove1 jid (JOB_QUEUE s) \<and>
              PROCESSING_JOBS s' =
                (if status_of s jid = Some PROCESSING then removeAll jid (PROCESSING_JOBS s)
                 else PROCESSING_JOBS s)))) \<and>
         (\<forall>jid idx now. e = ItemStep jid idx now \<longrightarrow>
            background s' = background s \<and> JOB_QUEUE s' = JOB_QUEUE s \<and>
            PROCESSING_JOBS s' = PROCESSING_JOBS s) \<and>
         (\<forall>es2 s2. background s' = 0 \<and> submitted es2 = [] \<and> run es2 s' = Some s2 \<longrightarrow>
            background s2 = 0 \<and> (\<forall>j. tasks s' j = None \<longrightarrow> tasks s2 j = None) \<and>
            set (JOB_QUEUE s2) \<subseteq> set (JOB_QUEUE s') \<and>
            (\<forall>j \<in> set (JOB_QUEUE s'). j \<in> set (JOB_QUEUE s2) \<or> withdrawn s2 j))"
proof -
  have i: "invariant s" using assms(1) by (rule invariant_reachable)
  have i': "invariant s'" using i assms(2) by (rule invariant_step)
  have idle: "\<forall>es2 s2. background s' = 0 \<and> submitted es2 = [] \<and> run es2 s' = Some s2 \<longrightarrow>
            background s2 = 0 \<and> (\<forall>j. tasks s' j = None \<longrightarrow> tasks s2 j = None) \<and>
            set (JOB_QUEUE s2) \<subseteq> set (JOB_QUEUE s') \<and>
            (\<forall>j \<in> set (JOB_QUEUE s'). j \<in> set (JOB_QUEUE s2) \<or> withdrawn s2 j)"
    using idle_run [OF i'] by blast
  have quiet: "e \<noteq> QueuePass \<longrightarrow> (\<forall>j. tasks s j = None \<longrightarrow> tasks s' j = None)"
    using no_admission_step [OF assms(2)] by blast
  have "(\<forall>jid now req. e = Create jid now req \<longrightarrow> background s' = background s + 1) \<and>
         (e = QueuePass \<longrightarrow> 0 < background s \<and> background s' = background s - 1) \<and>
         (\<forall>jid now. e = JobStep jid now \<longrightarrow>
            background s' = background s \<and> JOB_QUEUE s' = JOB_QUEUE s \<and>
            ((tasks s' jid = Some Finished \<and>
              PROCESSING_JOBS s' = removeAll jid (PROCESSING_JOBS s)) \<or>
             (status_of s' jid = Some PROCESSING \<and> PROCESSING_JOBS s' = PROCESSING_JOBS s)) \<and>
            (status_of s' jid = Some COMPLETED \<or> status_of s' jid = Some FAILED \<longrightarrow>
               jid \<notin> set (PROCESSING_JOBS s'))) \<and>
         (\<forall>jid now. e = Cancel jid now \<longrightarrow>
            background s' = background s \<and>
            (s' = s \<or>
             (status_of s' jid = Some CANCELLED \<and> JOB_QUEUE s' = remove1 jid (JOB_QUEUE s) \<and>
              PROCESSING_JOBS s' =
                (if status_of s jid = Some PROCESSING then removeAll jid (PROCESSING_JOBS s)
                 else PROCESSING_JOBS s)))) \<and>
         (\<forall>jid idx now. e = ItemStep jid idx now \<longrightarrow>
            background s' = background s \<and> JOB_QUEUE s' = JOB_QUEUE s \<and>
            PROCESSING_JOBS s' = PROCESSING_JOBS s)"
  proof (cases e)
    case (Create jid now req)
    have "\<forall>j \<in> set (JOB_QUEUE s). BATCH_JOBS s j \<noteq> None" using i by (rule queue_has_records)
    then show ?thesis using Create assms(2) create_queue(3) [of s jid now req]
      by (auto split: if_splits)
  next
    case (Cancel jid now)
    show ?thesis
    proof (cases "cancel_batch_job jid now s")
      case (Inl err)
      then show ?thesis using Cancel assms(2) by simp
    next
      case (Inr s1)
      from cancel_effect [OF Inr] show ?thesis using Cancel assms(2) Inr by simp
    qed
  next
    case QueuePass
    define p where "p = s\<lparr>background := background s - 1\<rparr>"
    have "background (process_job_queue p) = background p" using queue_pass_effect [of p] by blast
    then show ?thesis using QueuePass assms(2) by (auto simp: p_def split: if_splits)
  next
    case (JobStep jid now)
    then have "job_step jid now s = Some s'" using assms(2) by simp
    from job_step_effect [OF this] show ?thesis using JobStep by auto
  next
    case (ItemStep jid idx now)
    then have "item_step jid idx now s = Some s'" using assms(2) by simp
    from item_step_effect [OF this] show ?thesis using ItemStep by simp
  qed
  then show ?thesis using quiet idle by blast
qed

text \<open>
  The amended statement at the step that completes job \<^verbatim>\<open>a\<close> while job \<^verbatim>\<open>d\<close> is queued:
  the key of \<^verbatim>\<open>a\<close> is removed, no pass is registered, and after \<open>quiet_events\<close>, which
  free a second slot, \<^verbatim>\<open>d\<close> is still queued without a task. The submission that follows
  registers a pass.
\<close>

theorem C8_admission_only_on_submission_witness:
  "step (JobStep ''a'' 9) (state_after draining_run) = Some (state_after stuck_run) \<and>
   status_of (state_after draining_run) ''a'' = Some PROCESSING \<and>
   status_of (state_after stuck_run) ''a'' = Some COMPLETED \<and>
   ''a'' \<notin> set (PROCESSING_JOBS (state_after stuck_run)) \<and>
   tasks (state_after stuck_run) ''d'' = None \<and>
   background (state_after stuck_run) = background (state_after draining_run) \<and>
   JOB_QUEUE (state_after stuck_run) = JOB_QUEUE (state_after draining_run) \<and>
   JOB_QUEUE (state_after draining_run) = [''d''] \<and>
   background (state_after stuck_run) = 0 \<and>
   run quiet_events (state_after stuck_run) = Some (state_after (stuck_run @ quiet_events)) \<and>
   PROCESSING_JOBS (state_after (stuck_run @ quiet_events)) = [''b''] \<and>
   background (state_after (stuck_run @ quiet_events)) = 0 \<and>
   tasks (state_after (stuck_run @ quiet_events)) ''d'' = None \<and>
   ''d'' \<in> set (JOB_QUEUE (state_after (stuck_run @ quiet_events))) \<and>
   background (state_after (stuck_run @ [Create ''e'' 10 test_request])) =
     background (state_after stuck_run) + 1"
proof -
  let ?s2 = "state_after (stuck_run @ quiet_events)"
  have r: "run (draining_run @ [JobStep ''a'' 9]) init_state \<noteq> None"
    by (simp add: eval_defs)
  have r2: "run (stuck_run @ [Create ''e'' 10 test_request]) init_state \<noteq> None"
    by (simp add: eval_defs)
  note a = step_state_after [OF r, folded stuck_run_def]
  note b = step_state_after [OF r2]
  have "run (stuck_run @ quiet_events) init_state \<noteq> None" by (simp add: eval_defs)
  then have "run (stuck_run @ quiet_events) init_state = Some ?s2"
    by (rule run_some_state_after)
  moreover have "run stuck_run init_state = Some (state_after stuck_run)"
    by (rule run_some_state_after) (simp add: eval_defs)
  ultimately have r3: "run quiet_events (state_after stuck_run) = Some ?s2"
    by (simp add: run_append)
  have v: "status_of (state_after draining_run) ''a'' = Some PROCESSING"
    "status_of (state_after stuck_run) ''a'' = Some COMPLETED"
    "JOB_QUEUE (state_after draining_run) = [''d'']"
    "background (state_after stuck_run) = 0"
    "tasks (state_after stuck_run) ''d'' = None"
    "submitted quiet_events = []"
    "PROCESSING_JOBS ?s2 = [''b'']"
    "\<not> withdrawn ?s2 ''d''"
    by (simp_all add: eval_defs withdrawn_def)
  note t = C8_admission_only_on_submission [OF a [THEN conjunct1] a [THEN conjunct2]]
  have h: "background (state_after stuck_run) = 0 \<and> submitted quiet_events = [] \<and>
           run quiet_events (state_after stuck_run) = Some ?s2"
    using v r3 by simp
  from t h have w: "background ?s2 = 0 \<and>
      (\<forall>j. tasks (state_after stuck_run) j = None \<longrightarrow> tasks ?s2 j = None) \<and>
      (\<forall>j \<in> set (JOB_QUEUE (state_after stuck_run)). j \<in> set (JOB_QUEUE ?s2) \<or> withdrawn ?s2 j)"
    by blast
  have q: "JOB_QUEUE (state_after stuck_run) = [''d'']" using t v(3) by simp
  have w1: "tasks ?s2 ''d'' = None" using w v(5) by blast
  have w2: "''d'' \<in> set (JOB_QUEUE ?s2)" using w v(8) by (simp add: q)
  have w3: "''a'' \<notin> set (PROCESSING_JOBS (state_after stuck_run))" using t v(2) by simp
  show ?thesis
    using t C8_admission_only_on_submission [OF b [THEN conjunct1] b [THEN conjunct2]] a v r3 w w1 w2 w3
    by simp
qed

text \<open>
  As stated, the property fails: the task of job \<^verbatim>\<open>a\<close> has taken the job from
  processing to completed, job \<^verbatim>\<open>d\<close> is pending at the head of the queue and only two
  keys are registered; but no pass is registered, none can run, and no task exists for
  \<^verbatim>\<open>d\<close>.
\<close>

theorem C8_no_pass_after_completion:
  "run stuck_run init_state \<noteq> None \<and>
   status_of (state_after draining_run) ''a'' = Some PROCESSING \<and>
   status_of (state_after stuck_run) ''a'' = Some COMPLETED \<and>
   status_of (state_after stuck_run) ''d'' = Some PENDING \<and>
   JOB_QUEUE (state_after stuck_run) = [''d''] \<and>
   PROCESSING_JOBS (state_after stuck_run) = [''b'', ''c''] \<and>
   background (state_after stuck_run) = 0 \<and>
   step QueuePass (state_after stuck_run) = None \<and>
   tasks (state_after stuck_run) ''d'' = None \<and>
   step (JobStep ''d'' 10) (state_after stuck_run) = None"
  by (simp add: eval_defs)

subsection \<open>C9: the queue and the pending records\<close>

text \<open>
  Claim C9, as amended: in every reachable state the queue holds no id twice and every
  queued id has a record in status pending; and every record in status pending either
  has its id in the queue exactly once and no task, or has been taken out of the queue by
  an admission pass: its id is a key of \<open>PROCESSING_JOBS\<close> and its task has not run its
  first step.
\<close>

theorem C9_queue_and_pending_records:
  assumes "run es init_state = Some s"
  shows "distinct (JOB_QUEUE s) \<and>
         (\<forall>jid \<in> set (JOB_QUEUE s). status_of s jid = Some PENDING) \<and>
         (\<forall>jid. status_of s jid = Some PENDING \<longrightarrow>
            (count_list (JOB_QUEUE s) jid = 1 \<and> tasks s jid = None) \<or>
            (count_list (JOB_QUEUE s) jid = 0 \<and> tasks s jid = Some Scheduled \<and>
             jid \<in> set (PROCESSING_JOBS s)))"
proof -
  have i: "invariant s" using assms by (rule invariant_reachable)
  then have d: "distinct (JOB_QUEUE s)" by (simp add: inv_defs)
  have "(count_list (JOB_QUEUE s) jid = 1 \<and> tasks s jid = None) \<or>
        (count_list (JOB_QUEUE s) jid = 0 \<and> tasks s jid = Some Scheduled \<and>
         jid \<in> set (PROCESSING_JOBS s))" if p: "status_of s jid = Some PENDING" for jid
  proof (cases "jid \<in> set (JOB_QUEUE s)")
    case True
    then show ?thesis using i by (simp add: count_list_distinct [OF d] inv_defs)
  next
    case False
    then have "tasks s jid = Some Scheduled" using i p by (auto simp: inv_defs)
    then show ?thesis using i False by (simp add: count_list_distinct [OF d] inv_defs)
  qed
  then show ?thesis using i d by (simp add: inv_defs)
qed

text \<open>
  The amended statement at a job that has just been submitted, and at the same job after
  the admission pass.
\<close>

theorem C9_queue_and_pending_records_witness:
  "run [Create ''j'' 0 (listed_request NLP_ANALYSIS 5)] init_state \<noteq> None \<and>
   status_of (state_after [Create ''j'' 0 (listed_request NLP_ANALYSIS 5)]) ''j'' = Some PENDING \<and>
   count_list (JOB_QUEUE (state_after [Create ''j'' 0 (listed_request NLP_ANALYSIS 5)])) ''j'' = 1 \<and>
   status_of (state_after (take 2 race_run)) ''j'' = Some PENDING \<and>
   count_list (JOB_QUEUE (state_after (take 2 race_run))) ''j'' = 0 \<and>
   tasks (state_after (take 2 race_run)) ''j'' = Some Scheduled \<and>
   ''j'' \<in> set (PROCESSING_JOBS (state_after (take 2 race_run)))"
proof -
  have r1: "run [Create ''j'' 0 (listed_request NLP_ANALYSIS 5)] init_state =
              Some (state_after [Create ''j'' 0 (listed_request NLP_ANALYSIS 5)])"
    by (rule run_some_state_after) (simp add: eval_defs)
  have r2: "run (take 2 race_run) init_state = Some (state_after (take 2 race_run))"
    by (rule run_some_state_after) (simp add: eval_defs)
  have p1: "status_of (state_after [Create ''j'' 0 (listed_request NLP_ANALYSIS 5)]) ''j'' = Some PENDING"
    "''j'' \<in> set (JOB_QUEUE (state_after [Create ''j'' 0 (listed_request NLP_ANALYSIS 5)]))"
    by (simp_all add: eval_defs)
  have p2: "status_of (state_after (take 2 race_run)) ''j'' = Some PENDING"
    "''j'' \<notin> set (JOB_QUEUE (state_after (take 2 race_run)))"
    by (simp_all add: eval_defs)
  have c1: "count_list (JOB_QUEUE (state_after [Create ''j'' 0 (listed_request NLP_ANALYSIS 5)])) ''j'' = 1"
    using C9_queue_and_pending_records [OF r1] p1 by (auto simp: count_list_0_iff)
  have c2: "count_list (JOB_QUEUE (state_after (take 2 race_run))) ''j'' = 0 \<and>
            tasks (state_after (take 2 race_run)) ''j'' = Some Scheduled \<and>
            ''j'' \<in> set (PROCESSING_JOBS (state_after (take 2 race_run)))"
    using C9_queue_and_pending_records [OF r2] p2 by (auto simp: count_list_0_iff)
  show ?thesis using r1 p1 p2 c1 c2 by simp
qed

text \<open>
  As stated, the property fails: after the admission pass and before the first step of
  its task, the job is pending and its id is not in the queue.
\<close>

theorem C9_pending_job_outside_queue:
  "run (take 2 race_run) init_state \<noteq> None \<and>
   status_of (state_after (take 2 race_run)) ''j'' = Some PENDING \<and>
   count_list (JOB_QUEUE (state_after (take 2 race_run))) ''j'' = 0"
  by (simp add: eval_defs)

subsection \<open>C10: jobs of type model training\<close>

text \<open>
  Claim C10: a request of type \<open>MODEL_TRAINING\<close> is accepted in every reachable state and
  creates a pending, queued job; and whenever the task of such a job runs its first step,
  the job ends in status failed with exactly one job-level entry appended to its errors.
\<close>

theorem C10_model_training_fails:
  assumes reach: "run es init_state = Some s" and fresh: "BATCH_JOBS s jid = None"
    and ty: "req_job_type req = MODEL_TRAINING"
  shows "(\<exists>pos. fst (create_batch_job jid now req s) =
            Inr \<lparr>resp_job_id = jid, resp_status = PENDING,
                 resp_total_items = length (req_items req), resp_queue_position = pos\<rparr>) \<and>
         step (Create jid now req) s = Some (snd (create_batch_job jid now req s)) \<and>
         status_of (snd (create_batch_job jid now req s)) jid = Some PENDING \<and>
         jid \<in> set (JOB_QUEUE (snd (create_batch_job jid now req s))) \<and>
         (\<forall>(s2 :: state) job t2. BATCH_JOBS s2 jid = Some job \<and> job_type job = MODEL_TRAINING \<and>
                      tasks s2 jid = Some Scheduled \<longrightarrow>
            (\<exists>s3 job'. step (JobStep jid t2) s2 = Some s3 \<and> BATCH_JOBS s3 jid = Some job' \<and>
               status job' = FAILED \<and>
               errors job' = errors job @
                 [JobFailure (ValueError ''Unknown job type: model_training'') t2]))"
proof (intro conjI allI impI)
  have recs: "\<forall>j \<in> set (JOB_QUEUE s). BATCH_JOBS s j \<noteq> None"
    using reach by (intro queue_has_records invariant_reachable)
  show "\<exists>pos. fst (create_batch_job jid now req s) =
            Inr \<lparr>resp_job_id = jid, resp_status = PENDING,
                 resp_total_items = length (req_items req), resp_queue_position = pos\<rparr>"
    using create_queue(2) [OF recs, of jid now req] by auto
  show "step (Create jid now req) s = Some (snd (create_batch_job jid now req s))"
    using fresh by simp
  show "status_of (snd (create_batch_job jid now req s)) jid = Some PENDING"
    by (simp add: status_of_def create_fields new_job_def)
  show "jid \<in> set (JOB_QUEUE (snd (create_batch_job jid now req s)))"
    by (simp add: create_fields)
next
  fix s2 :: state and job :: BatchJob and t2 :: timestamp
  assume a: "BATCH_JOBS s2 jid = Some job \<and> job_type job = MODEL_TRAINING \<and>
             tasks s2 jid = Some Scheduled"
  then have "step (JobStep jid t2) s2 =
     Some (finish_task jid (put_job jid
       (job_failed t2 (ValueError ''Unknown job type: model_training'')
          (job\<lparr>status := PROCESSING, started_at := Some t2\<rparr>)) s2))"
    by (simp add: job_step_def process_batch_job_start_def)
  then show "\<exists>s3 job'. step (JobStep jid t2) s2 = Some s3 \<and> BATCH_JOBS s3 jid = Some job' \<and>
               status job' = FAILED \<and>
               errors job' = errors job @
                 [JobFailure (ValueError ''Unknown job type: model_training'') t2]"
    by (simp add: finish_put_fields job_failed_def)
qed

text \<open>
  The statement at a training request of five items: it is accepted, admitted, and its
  task fails it with one entry.
\<close>

theorem C10_model_training_fails_witness:
  "req_job_type training_request = MODEL_TRAINING \<and>
   step (Create ''j'' 0 training_request) init_state =
     Some (snd (create_batch_job ''j'' 0 training_request init_state)) \<and>
   status_of (snd (create_batch_job ''j'' 0 training_request init_state)) ''j'' = Some PENDING \<and>
   tasks (state_after [Create ''j'' 0 training_request, QueuePass]) ''j'' = Some Scheduled \<and>
   (\<exists>s3 job'. step (JobStep ''j'' 1) (state_after [Create ''j'' 0 training_request, QueuePass]) = Some s3 \<and>
      BATCH_JOBS s3 ''j'' = Some job' \<and> status job' = FAILED \<and>
      errors job' = [JobFailure (ValueError ''Unknown job type: model_training'') 1])"
proof -
  have h: "run [] init_state = Some init_state" "BATCH_JOBS init_state ''j'' = None"
    "req_job_type training_request = MODEL_TRAINING"
    by (simp_all add: eval_defs training_request_def)
  obtain job where s2: "BATCH_JOBS (state_after [Create ''j'' 0 training_request, QueuePass]) ''j'' = Some job"
    "job_type job = MODEL_TRAINING" "errors job = []"
    "tasks (state_after [Create ''j'' 0 training_request, QueuePass]) ''j'' = Some Scheduled"
    by (simp add: eval_defs training_request_def)
  show ?thesis
    using C10_model_training_fails [OF h, of 0] s2 h(3) by (metis append_Nil)
qed

end
